theory Spec2Isabelle
  imports Main "HOL-Library.Word" "HOL-Library.Log_Nat" "HOL-Library.Multiset"
begin

section \<open>Data model of the chunk downloader (src/common/chunks.ts)\<close>

text \<open>
  A \<open>Uint8Array\<close> is a list of bytes. The two metadata fields travel as decimal
  strings and are read with \<open>new BigNumber(...)\<close>; the model holds the integers they
  denote. Every thrown \<open>Error\<close> of the source is a constructor of \<open>error\<close>:
  the two request failures, the final size check (line 131, carrying the two numbers of
  its message) and the \<open>RangeError\<close> of the typed array operations.
  \<open>InsufficientBufferError\<close> belongs to the chunk buffer further down.
\<close>

type_synonym bytes = "8 word list"

datatype error =
    MetadataFetchError
  | ChunkFetchError
  | SizeMismatchError int int
  | RangeError
  | InsufficientBufferError

record TransactionChunkMetadataResponse =
  md_size :: int
  md_offset :: int

text \<open>
  The remote service, as the calls of the source see it. \<open>tx_offset k id\<close> is the
  answer to the \<open>k\<close>-th metadata request of one run (counted from 0) when it asks
  for \<open>id\<close>, and \<open>chunk off\<close> the decoded body of \<open>GET chunk/off\<close>;
  \<open>None\<close> is a status other than 200.
\<close>

record api =
  tx_offset :: "nat \<Rightarrow> string \<Rightarrow> TransactionChunkMetadataResponse option"
  chunk :: "int \<Rightarrow> bytes option"

definition getTransactionMetadata ::
  "api \<Rightarrow> nat \<Rightarrow> string \<Rightarrow> error + TransactionChunkMetadataResponse" where
  "getTransactionMetadata a k ident =
     (case tx_offset a k ident of None \<Rightarrow> Inl MetadataFetchError | Some md \<Rightarrow> Inr md)"

definition getChunkData :: "api \<Rightarrow> int \<Rightarrow> error + bytes" where
  "getChunkData a off = (case chunk a off of None \<Rightarrow> Inl ChunkFetchError | Some r \<Rightarrow> Inr r)"

section \<open>The chunk count of line 100\<close>

text \<open>
  \<open>Math.ceil(size.dividedBy(MAX_CHUNK_SIZE).toNumber())\<close>. The quotient is a
  BigNumber, which \<open>dividedBy\<close> rounds to 20 decimal places, half away from zero
  (the library's default \<open>DECIMAL_PLACES\<close> and \<open>ROUNDING_MODE\<close>); it is held
  here as the integer number of units of \<open>10^-20\<close>. \<open>toNumber\<close> takes the nearest
  IEEE double, ties to the even significand; a double is held as significand and binary
  exponent. \<open>MAX_CHUNK_SIZE\<close> is imported from a file outside this excerpt and is the
  parameter \<open>M\<close>; the model is for \<open>0 < M\<close> and for quotients below \<open>2^1024\<close>.
\<close>

definition dividedBy :: "int \<Rightarrow> int \<Rightarrow> int" where
  "dividedBy x y = sgn x * ((2 * (\<bar>x\<bar> * 10 ^ 20) + y) div (2 * y))"

definition round_half_even :: "int \<Rightarrow> int \<Rightarrow> int" where
  "round_half_even a b =
     (let q = a div b; r = a mod b
      in if b < 2 * r \<or> (2 * r = b \<and> odd q) then q + 1 else q)"

definition floor_log2 :: "int \<Rightarrow> int \<Rightarrow> int" where
  "floor_log2 a b =
     (let d = bitlen a - bitlen b
      in if (if 0 \<le> d then b * 2 ^ nat d \<le> a else b \<le> a * 2 ^ nat (- d)) then d else d - 1)"

definition toNumber :: "int \<Rightarrow> int \<times> int" where
  "toNumber n =
     (if n = 0 then (0, 0)
      else let a = \<bar>n\<bar>; b = 10 ^ 20; sh = 52 - floor_log2 a b;
               m = (if 0 \<le> sh then round_half_even (a * 2 ^ nat sh) b
                    else round_half_even a (b * 2 ^ nat (- sh)))
           in (sgn n * m, - sh))"

definition Math_ceil :: "int \<times> int \<Rightarrow> int" where
  "Math_ceil d = (case d of (m, e) \<Rightarrow>
     if 0 \<le> e then m * 2 ^ nat e else - ((- m) div 2 ^ nat (- e)))"

definition chunks :: "int \<Rightarrow> int \<Rightarrow> int" where
  "chunks M sz = Math_ceil (toNumber (dividedBy sz M))"

section \<open>The generator concurrentDownloadChunkedData\<close>

text \<open>
  One run of the generator, consumed to its end, is a state that is passed along.
  \<open>processing\<close> is the queue of promises of line 108, a promise being named by the
  offset it fetches. \<open>pending\<close> holds the requests that are issued and not yet
  settled, \<open>issued\<close> logs every request in the order of issue, \<open>peak\<close> is the
  largest number of requests pending at one time, \<open>yielded\<close> the buffers handed to
  the consumer, \<open>meta_requests\<close> the number of metadata requests made so far and
  \<open>thrown\<close> the error that ended the run, if one did. The counters of the source that
  are native numbers (\<open>currChunk\<close>, \<open>processedBytes\<close>, the concurrency option) are
  integers here, which is what they are below \<open>2^53\<close>.

  The code between two suspensions of the generator runs without interruption, so
  requests settle only while it is suspended. \<open>sched k\<close> lists the requests (by
  offset) that have settled, in this order, when the \<open>k\<close>-th await returns, before
  the awaited one did if it had not yet; entries that are not pending are skipped. A
  schedule is arbitrary, so a statement for all schedules is one for every order of
  completion. The \<open>then\<close> callback of line 103 adds to \<open>processedBytes\<close> when a
  request settles with a body. What the runtime does with a rejected promise that is
  never awaited is outside the model.
\<close>

record gen_state =
  currChunk :: int
  processing :: "int list"
  pending :: "int list"
  processedBytes :: int
  awaits :: nat
  yielded :: "bytes list"
  issued :: "int list"
  peak :: nat
  meta_requests :: nat
  thrown :: "error option"

definition init_state :: "nat \<Rightarrow> gen_state" where
  "init_state k = \<lparr>currChunk = 0, processing = [], pending = [], processedBytes = 0,
     awaits = 0, yielded = [], issued = [], peak = 0, meta_requests = k, thrown = None\<rparr>"

definition downloadData :: "int \<Rightarrow> gen_state \<Rightarrow> gen_state" where
  "downloadData off st =
     st\<lparr>pending := pending st @ [off], issued := issued st @ [off],
        peak := max (peak st) (Suc (length (pending st)))\<rparr>"

definition body_length :: "api \<Rightarrow> int \<Rightarrow> int" where
  "body_length a off = (case getChunkData a off of Inl e \<Rightarrow> 0 | Inr r \<Rightarrow> int (length r))"

definition settle :: "api \<Rightarrow> int \<Rightarrow> int list \<times> int \<Rightarrow> int list \<times> int" where
  "settle a off pb =
     (case pb of (pend, bytes) \<Rightarrow>
        if off \<in> set pend then (remove1 off pend, bytes + body_length a off) else (pend, bytes))"

text \<open>\<open>yield p\<close> for a promise \<open>p\<close>: wait until it settles, then emit or throw.\<close>

definition yield_promise :: "api \<Rightarrow> (nat \<Rightarrow> int list) \<Rightarrow> int \<Rightarrow> gen_state \<Rightarrow> gen_state" where
  "yield_promise a sched p st =
     (let pb = fold (settle a) (sched (awaits st) @ [p]) (pending st, processedBytes st);
          st' = st\<lparr>pending := fst pb, processedBytes := snd pb, awaits := Suc (awaits st)\<rparr>
      in case getChunkData a p of
           Inl e \<Rightarrow> st'\<lparr>thrown := Some e\<rparr>
         | Inr r \<Rightarrow> st'\<lparr>yielded := yielded st @ [r]\<rparr>)"

text \<open>\<open>downloadData(startOffset.plus(MAX_CHUNK_SIZE * currChunk++))\<close>\<close>

definition next_offset :: "int \<Rightarrow> int \<Rightarrow> gen_state \<Rightarrow> int" where
  "next_offset M startOffset st = startOffset + M * currChunk st"

definition push_next :: "int \<Rightarrow> int \<Rightarrow> gen_state \<Rightarrow> gen_state" where
  "push_next M startOffset st =
     (let off = next_offset M startOffset st
      in (downloadData off st)\<lparr>currChunk := currChunk st + 1,
                                processing := processing st @ [off]\<rparr>)"

text \<open>\<open>yield processing.shift()!\<close>; both uses are guarded by a non-empty queue.\<close>

definition yield_shift :: "api \<Rightarrow> (nat \<Rightarrow> int list) \<Rightarrow> gen_state \<Rightarrow> gen_state" where
  "yield_shift a sched st =
     (case processing st of
        [] \<Rightarrow> st
      | p # ps \<Rightarrow> yield_promise a sched p (st\<lparr>processing := ps\<rparr>))"

text \<open>Line 118: the initial fill of the window.\<close>

function fill_window :: "int \<Rightarrow> int \<Rightarrow> int \<Rightarrow> int \<Rightarrow> gen_state \<Rightarrow> gen_state" where
  "fill_window M startOffset concurrency i st =
     (if i < concurrency
      then fill_window M startOffset concurrency (i + 1) (push_next M startOffset st)
      else st)"
  by pat_completeness auto
termination
  by (relation "measure (\<lambda>(M, s, c, i, st). nat (c - i))") auto

text \<open>Lines 120 to 124: one more request, then the oldest promise.\<close>

function parallel_loop ::
  "api \<Rightarrow> (nat \<Rightarrow> int list) \<Rightarrow> int \<Rightarrow> int \<Rightarrow> int \<Rightarrow> gen_state \<Rightarrow> gen_state" where
  "parallel_loop a sched M startOffset parallelChunks st =
     (if thrown st = None \<and> currChunk st < parallelChunks
      then parallel_loop a sched M startOffset parallelChunks
             (yield_shift a sched (push_next M startOffset st))
      else st)"
  by pat_completeness auto
termination
  by (relation "measure (\<lambda>(a, sched, M, s, pc, st). nat (pc - currChunk st))")
     (auto simp: yield_shift_def yield_promise_def push_next_def downloadData_def Let_def
           split: list.splits sum.splits)

text \<open>Line 126: what is left in the queue, oldest first.\<close>

function drain_loop :: "api \<Rightarrow> (nat \<Rightarrow> int list) \<Rightarrow> gen_state \<Rightarrow> gen_state" where
  "drain_loop a sched st =
     (if thrown st = None \<and> processing st \<noteq> []
      then drain_loop a sched (yield_shift a sched st)
      else st)"
  by pat_completeness auto
termination
  by (relation "measure (\<lambda>(a, sched, st). length (processing st))")
     (auto simp: yield_shift_def yield_promise_def Let_def split: list.splits sum.splits)

text \<open>
  \<open>yield downloadData(startOffset.plus(MAX_CHUNK_SIZE * currChunk++))\<close> of lines 128
  and 129: the request is issued and awaited at once, without entering the queue.
\<close>

definition yield_next :: "api \<Rightarrow> (nat \<Rightarrow> int list) \<Rightarrow> int \<Rightarrow> int \<Rightarrow> gen_state \<Rightarrow> gen_state" where
  "yield_next a sched M startOffset st =
     (let off = next_offset M startOffset st
      in yield_promise a sched off ((downloadData off st)\<lparr>currChunk := currChunk st + 1\<rparr>))"

text \<open>Lines 128 to 131. A statement after a throw is not reached.\<close>

definition tail_phase :: "api \<Rightarrow> (nat \<Rightarrow> int list) \<Rightarrow> int \<Rightarrow> int \<Rightarrow> int \<Rightarrow> gen_state \<Rightarrow> gen_state" where
  "tail_phase a sched M startOffset sz st =
     (if thrown st \<noteq> None then st
      else let st1 = yield_next a sched M startOffset st
      in if thrown st1 \<noteq> None then st1
      else let st2 = (if processedBytes st1 < sz then yield_next a sched M startOffset st1 else st1)
      in if thrown st2 \<noteq> None then st2
      else if sz \<noteq> processedBytes st2
           then st2\<lparr>thrown := Some (SizeMismatchError (processedBytes st2) sz)\<rparr>
           else st2)"

text \<open>
  Lines 111 to 126 for a given chunk count \<open>n\<close>: the window is filled, kept full
  and drained. \<open>opt\<close> is the configured concurrency, after the default.
\<close>

definition parallel_phase ::
  "api \<Rightarrow> (nat \<Rightarrow> int list) \<Rightarrow> int \<Rightarrow> int \<Rightarrow> int \<Rightarrow> int \<Rightarrow> gen_state \<Rightarrow> gen_state" where
  "parallel_phase a sched M startOffset n opt st =
     (let parallelChunks = n - 2;
          concurrency = min parallelChunks opt
      in drain_loop a sched
           (parallel_loop a sched M startOffset parallelChunks
             (fill_window M startOffset concurrency 0 st)))"

definition run_plan ::
  "api \<Rightarrow> (nat \<Rightarrow> int list) \<Rightarrow> int \<Rightarrow> int \<Rightarrow> int \<Rightarrow> int \<Rightarrow> int \<Rightarrow> gen_state \<Rightarrow> gen_state" where
  "run_plan a sched M startOffset sz n opt st =
     tail_phase a sched M startOffset sz (parallel_phase a sched M startOffset n opt st)"

text \<open>
  The generator of lines 90 to 134, run to its end: \<open>options\<close> is the
  \<open>concurrency\<close> option when the caller gave one, \<open>k\<close> the number of metadata
  requests made before this one.
\<close>

definition concurrentDownloadChunkedData ::
  "api \<Rightarrow> (nat \<Rightarrow> int list) \<Rightarrow> int \<Rightarrow> nat \<Rightarrow> string \<Rightarrow> int option \<Rightarrow> gen_state" where
  "concurrentDownloadChunkedData a sched M k ident options =
     (let opt = (case options of None \<Rightarrow> 10 | Some c \<Rightarrow> c);
          st = init_state (Suc k)
      in case getTransactionMetadata a k ident of
           Inl e \<Rightarrow> st\<lparr>thrown := Some e\<rparr>
         | Inr metadata \<Rightarrow>
             let endOffset = md_offset metadata;
                 sz = md_size metadata;
                 startOffset = endOffset - sz + 1
             in run_plan a sched M startOffset sz (chunks M sz) opt st)"

section \<open>downloadChunkedData\<close>

text \<open>
  \<open>new Uint8Array(n)\<close> throws a \<open>RangeError\<close> for a negative length and for one
  above \<open>2^53 - 1\<close>, and \<open>parseInt\<close> of a decimal string is exact below that;
  the smaller limit an engine may have is not modelled. \<open>data.set(src, off)\<close>
  throws a \<open>RangeError\<close> when the source does not fit behind \<open>off\<close>.
\<close>

definition Uint8Array_new :: "int \<Rightarrow> error + bytes" where
  "Uint8Array_new n = (if n < 0 \<or> 2 ^ 53 \<le> n then Inl RangeError else Inr (replicate (nat n) 0))"

definition Uint8Array_set :: "bytes \<Rightarrow> bytes \<Rightarrow> nat \<Rightarrow> error + bytes" where
  "Uint8Array_set data src off =
     (if length data < off + length src then Inl RangeError
      else Inr (take off data @ src @ drop (off + length src) data))"

text \<open>The body of the \<open>for await\<close> of lines 83 to 86, over the buffers as they come.\<close>

fun write_chunks :: "bytes \<Rightarrow> nat \<Rightarrow> bytes list \<Rightarrow> error + bytes" where
  "write_chunks data byte [] = Inr data"
| "write_chunks data byte (chunkData # rest) =
     (case Uint8Array_set data chunkData byte of
        Inl e \<Rightarrow> Inl e
      | Inr data' \<Rightarrow> write_chunks data' (byte + length chunkData) rest)"

text \<open>
  Lines 79 to 87. The result comes with the number of metadata requests the call made.
  The consumer takes the buffers one by one, so an error of its own on a buffer comes
  before an error the generator throws later.
\<close>

definition downloadChunkedData ::
  "api \<Rightarrow> (nat \<Rightarrow> int list) \<Rightarrow> int \<Rightarrow> string \<Rightarrow> (error + bytes) \<times> nat" where
  "downloadChunkedData a sched M ident =
     (case getTransactionMetadata a 0 ident of
        Inl e \<Rightarrow> (Inl e, 1)
      | Inr offsetResponse \<Rightarrow>
          (case Uint8Array_new (md_size offsetResponse) of
             Inl e \<Rightarrow> (Inl e, 1)
           | Inr data \<Rightarrow>
               let g = concurrentDownloadChunkedData a sched M 1 ident None
               in (case write_chunks data 0 (yielded g) of
                     Inl e \<Rightarrow> (Inl e, meta_requests g)
                   | Inr data' \<Rightarrow>
                       (case thrown g of
                          Some e \<Rightarrow> (Inl e, meta_requests g)
                        | None \<Rightarrow> (Inr data', meta_requests g)))))"

section \<open>The chunk buffer and the chunker (src/common/lib/stream/chunker.ts)\<close>

text \<open>
  Modelled from the spec: the file that defines \<open>ChunkBuffer\<close> and \<open>chunker\<close>
  is not part of the excerpt, only its test is. The state is the one of section 3 of the
  specification: the queued segments and the cumulative buffered length.
\<close>

record ChunkBuffer =
  buffers :: "bytes list"
  cb_length :: nat

definition ChunkBuffer_new :: ChunkBuffer where
  "ChunkBuffer_new = \<lparr>buffers = [], cb_length = 0\<rparr>"

text \<open>
  Modelled from the spec: \<open>push\<close> of the missing \<open>ChunkBuffer\<close> appends a segment
  to the tail of the queue, of any length.
\<close>

definition push :: "bytes \<Rightarrow> ChunkBuffer \<Rightarrow> ChunkBuffer" where
  "push bs b = \<lparr>buffers = buffers b @ [bs], cb_length = cb_length b + length bs\<rparr>"

text \<open>
  Modelled from the spec: the splicing of the missing \<open>pop\<close>. It removes \<open>n\<close> bytes
  from the head of the queue across one or more segments; a head segment with more than
  \<open>n\<close> bytes is split and its remainder stays at the head.
\<close>

fun splice :: "nat \<Rightarrow> bytes list \<Rightarrow> bytes \<times> bytes list" where
  "splice n [] = ([], [])"
| "splice n (seg # segs) =
     (if n < length seg then (take n seg, drop n seg # segs)
      else (case splice (n - length seg) segs of (out, rest) \<Rightarrow> (seg @ out, rest)))"

text \<open>
  Modelled from the spec: \<open>pop\<close> of the missing \<open>ChunkBuffer\<close> fails with
  \<open>InsufficientBufferError\<close>, the state untouched, when fewer than \<open>n\<close> bytes are
  buffered.
\<close>

definition pop :: "nat \<Rightarrow> ChunkBuffer \<Rightarrow> error + bytes \<times> ChunkBuffer" where
  "pop n b =
     (if cb_length b < n then Inl InsufficientBufferError
      else (case splice n (buffers b) of (out, rest) \<Rightarrow>
              Inr (out, \<lparr>buffers = rest, cb_length = cb_length b - n\<rparr>)))"

text \<open>
  Modelled from the spec: \<open>flush\<close> of the missing \<open>ChunkBuffer\<close> returns all
  buffered bytes in order and resets the state to empty.
\<close>

definition flush :: "ChunkBuffer \<Rightarrow> bytes \<times> ChunkBuffer" where
  "flush b = (concat (buffers b), ChunkBuffer_new)"

text \<open>
  Modelled from the spec: the inner loop of the missing \<open>chunker\<close>, "while buffered
  length \<ge> chunkSize, pop and yield one chunkSize-byte buffer". With \<open>chunkSize = 0\<close>
  the loop does not end, which is the value \<open>None\<close>.
\<close>

partial_function (option) pop_chunks ::
  "nat \<Rightarrow> ChunkBuffer \<Rightarrow> bytes list \<Rightarrow> (error + bytes list \<times> ChunkBuffer) option" where
  "pop_chunks chunkSize b acc =
     (if chunkSize \<le> cb_length b
      then (case pop chunkSize b of
              Inl e \<Rightarrow> Some (Inl e)
            | Inr (out, b') \<Rightarrow> pop_chunks chunkSize b' (acc @ [out]))
      else Some (Inr (acc, b)))"

text \<open>
  Modelled from the spec: the missing \<open>chunker\<close> pushes each input buffer, yields
  what the inner loop pops and, when the input is exhausted, yields the flushed remainder
  if \<open>flush\<close> is set and bytes are left. \<open>acc\<close> collects the yielded buffers.
\<close>

fun chunker_loop ::
  "nat \<Rightarrow> bool \<Rightarrow> ChunkBuffer \<Rightarrow> bytes list \<Rightarrow> bytes list \<Rightarrow> (error + bytes list) option" where
  "chunker_loop chunkSize fl b acc [] =
     Some (Inr (if fl \<and> 0 < cb_length b then acc @ [fst (flush b)] else acc))"
| "chunker_loop chunkSize fl b acc (x # xs) =
     (case pop_chunks chunkSize (push x b) acc of
        None \<Rightarrow> None
      | Some (Inl e) \<Rightarrow> Some (Inl e)
      | Some (Inr (acc', b')) \<Rightarrow> chunker_loop chunkSize fl b' acc' xs)"

definition chunker :: "nat \<Rightarrow> bool \<Rightarrow> bytes list \<Rightarrow> (error + bytes list) option" where
  "chunker chunkSize fl inputs = chunker_loop chunkSize fl ChunkBuffer_new [] inputs"

text \<open>A sequence of calls on one chunk buffer, with the outputs of the calls in order.\<close>

datatype cb_call = Push bytes | Pop nat | Flush

fun run_calls :: "cb_call list \<Rightarrow> ChunkBuffer \<Rightarrow> error + bytes list \<times> ChunkBuffer" where
  "run_calls [] b = Inr ([], b)"
| "run_calls (Push x # cs) b = run_calls cs (push x b)"
| "run_calls (Pop n # cs) b =
     (case pop n b of
        Inl e \<Rightarrow> Inl e
      | Inr (out, b') \<Rightarrow>
          (case run_calls cs b' of Inl e \<Rightarrow> Inl e | Inr (outs, b'') \<Rightarrow> Inr (out # outs, b'')))"
| "run_calls (Flush # cs) b =
     (case flush b of (out, b') \<Rightarrow>
        (case run_calls cs b' of Inl e \<Rightarrow> Inl e | Inr (outs, b'') \<Rightarrow> Inr (out # outs, b'')))"

fun pushed :: "cb_call list \<Rightarrow> bytes" where
  "pushed [] = []"
| "pushed (Push x # cs) = x @ pushed cs"
| "pushed (c # cs) = pushed cs"

section \<open>Example services\<close>

text \<open>
  A content of 14 bytes that ends at offset 113, in chunks of 4 bytes, and a schedule in
  which the youngest request always settles first.
\<close>

definition example_md :: TransactionChunkMetadataResponse where
  "example_md = \<lparr>md_size = 14, md_offset = 113\<rparr>"

definition example_chunk :: "int \<Rightarrow> bytes option" where
  "example_chunk off =
     (if off = 100 then Some [1, 2, 3, 4]
      else if off = 104 then Some [5, 6, 7, 8]
      else if off = 108 then Some [9, 10, 11, 12]
      else if off = 112 then Some [13, 14]
      else None)"

definition example_api :: api where
  "example_api = \<lparr>tx_offset = (\<lambda>k ident. Some example_md), chunk = example_chunk\<rparr>"

definition youngest_first :: "nat \<Rightarrow> int list" where
  "youngest_first k = [112, 108, 104, 100]"

text \<open>
  A schedule in which a request settles only when the generator waits for it, a content
  of declared size 0, and a single-chunk content whose first body comes back one byte
  short.
\<close>

definition in_order :: "nat \<Rightarrow> int list" where
  "in_order k = []"

definition empty_md :: TransactionChunkMetadataResponse where
  "empty_md = \<lparr>md_size = 0, md_offset = 99\<rparr>"

definition empty_chunk :: "int \<Rightarrow> bytes option" where
  "empty_chunk off = Some []"

definition empty_api :: api where
  "empty_api = \<lparr>tx_offset = (\<lambda>k ident. Some empty_md), chunk = empty_chunk\<rparr>"

definition short_md :: TransactionChunkMetadataResponse where
  "short_md = \<lparr>md_size = 3, md_offset = 102\<rparr>"

definition short_chunk :: "int \<Rightarrow> bytes option" where
  "short_chunk off = (if off = 100 then Some [1, 2] else Some [3])"

definition short_api :: api where
  "short_api = \<lparr>tx_offset = (\<lambda>k ident. Some short_md), chunk = short_chunk\<rparr>"


text \<open>A service that declares size 0 and answers every chunk request with three bytes.\<close>

definition stray_chunk :: "int \<Rightarrow> bytes option" where
  "stray_chunk off = Some [7, 7, 7]"

definition stray_api :: api where
  "stray_api = \<lparr>tx_offset = (\<lambda>k ident. Some empty_md), chunk = stray_chunk\<rparr>"

text \<open>
  A service whose two metadata answers differ, and the data of the chunk buffer test
  "should be able to chunk multiple unaligned buffers".
\<close>

definition two_sizes_api :: api where
  "two_sizes_api =
     \<lparr>tx_offset = (\<lambda>k ident. Some (if k = 0 then \<lparr>md_size = 5, md_offset = 104\<rparr>
                                      else \<lparr>md_size = 3, md_offset = 102\<rparr>)),
      chunk = (\<lambda>off. if off = 100 then Some [1, 2, 3] else None)\<rparr>"

definition test_data :: bytes where
  "test_data = [1, 2, 3, 4, 5, 6, 7, 8, 9, 10, 11, 12, 13, 14, 15, 16,
                17, 18, 19, 20, 21, 22, 23, 24, 25, 26, 27, 28, 29, 30, 31, 32]"

definition test_calls :: "cb_call list" where
  "test_calls = [Push (take 16 test_data), Push (drop 16 test_data), Pop 8, Pop 7, Pop 12]"

section \<open>Invariant of a run\<close>

text \<open>
  \<open>offs M s i j\<close> are the offsets of the chunks \<open>i\<close> to \<open>j - 1\<close>. The invariant
  ties the state to them: the requests issued are those of the chunks below
  \<open>currChunk\<close>, the buffers yielded are the bodies of the first of them, the queue holds
  the rest in order, nothing is pending outside the queue, and \<open>processedBytes\<close>
  counts the bodies of the settled requests. \<open>finished\<close> is the check of line 131.
\<close>

definition offs :: "int \<Rightarrow> int \<Rightarrow> nat \<Rightarrow> nat \<Rightarrow> int list" where
  "offs M s i j = map (\<lambda>k. s + M * int k) [i..<j]"

definition gen_inv :: "api \<Rightarrow> int \<Rightarrow> int \<Rightarrow> gen_state \<Rightarrow> bool" where
  "gen_inv a M s st \<longleftrightarrow>
     0 \<le> currChunk st \<and>
     issued st = offs M s 0 (nat (currChunk st)) \<and>
     map Inr (yielded st) = map (getChunkData a) (offs M s 0 (length (yielded st))) \<and>
     processedBytes st + sum_list (map (body_length a) (pending st))
       = sum_list (map (body_length a) (issued st)) \<and>
     (thrown st \<noteq> None \<longrightarrow>
        thrown st = Some ChunkFetchError \<and>
        length (yielded st) < nat (currChunk st) \<and>
        getChunkData a (s + M * int (length (yielded st))) = Inl ChunkFetchError) \<and>
     (thrown st = None \<longrightarrow>
        length (yielded st) \<le> nat (currChunk st) \<and>
        processing st = offs M s (length (yielded st)) (nat (currChunk st)) \<and>
        mset (pending st) \<subseteq># mset (processing st))"

definition finished :: "int \<Rightarrow> gen_state \<Rightarrow> gen_state" where
  "finished sz st' =
     (if thrown st' = None \<and> sz \<noteq> processedBytes st'
      then st'\<lparr>thrown := Some (SizeMismatchError (processedBytes st') sz)\<rparr> else st')"


text \<open>
  For the chunk buffer: the recorded length agrees with the queued segments, and
  \<open>slices n xs\<close> cuts \<open>xs\<close> into consecutive pieces of \<open>n\<close> bytes, dropping the rest.
\<close>

definition wff :: "ChunkBuffer \<Rightarrow> bool" where
  "wff b \<longleftrightarrow> cb_length b = length (concat (buffers b))"

function slices :: "nat \<Rightarrow> bytes \<Rightarrow> bytes list" where
  "slices n xs = (if 0 < n \<and> n \<le> length xs then take n xs # slices n (drop n xs) else [])"
  by pat_completeness auto
termination
  by (relation "measure (\<lambda>(n, xs). length xs)") auto


declare fill_window.simps [simp del] parallel_loop.simps [simp del] drain_loop.simps [simp del]
  slices.simps [simp del]

subsection \<open>Settling requests\<close>

lemma settle_sum:
  "snd (settle a off pb) + sum_list (map (body_length a) (fst (settle a off pb)))
     = snd pb + sum_list (map (body_length a) (fst pb))"
  by (cases pb) (auto simp: settle_def sum_list_map_remove1)

lemma fold_settle_sum:
  "snd (fold (settle a) xs pb) + sum_list (map (body_length a) (fst (fold (settle a) xs pb)))
     = snd pb + sum_list (map (body_length a) (fst pb))"
  by (induction xs arbitrary: pb) (simp_all add: settle_sum)

lemma settle_mset: "mset (fst (settle a off pb)) \<subseteq># mset (fst pb)"
  by (cases pb) (auto simp: settle_def)

lemma fold_settle_mset: "mset (fst (fold (settle a) xs pb)) \<subseteq># mset (fst pb)"
proof (induction xs arbitrary: pb)
  case Nil
  show ?case by simp
next
  case (Cons x xs)
  have "mset (fst (fold (settle a) xs (settle a x pb))) \<subseteq># mset (fst (settle a x pb))"
    by (rule Cons.IH)
  also have "\<dots> \<subseteq># mset (fst pb)" by (rule settle_mset)
  finally show ?case by simp
qed

lemma settle_removes: "mset (fst (settle a p pb)) = mset (fst pb) - {#p#}"
  by (cases pb) (auto simp: settle_def)

lemma fold_settle_last:
  "mset (fst (fold (settle a) (xs @ [p]) pb)) \<subseteq># mset (fst pb) - {#p#}"
proof -
  have "mset (fst (fold (settle a) (xs @ [p]) pb)) = mset (fst (fold (settle a) xs pb)) - {#p#}"
    by (simp add: settle_removes)
  also have "\<dots> \<subseteq># mset (fst pb) - {#p#}"
    using fold_settle_mset [of a xs pb]
    by (auto simp: subseteq_mset_def intro: diff_le_mono)
  finally show ?thesis .
qed

lemma offs_Suc: "i \<le> j \<Longrightarrow> offs M s i (Suc j) = offs M s i j @ [s + M * int j]"
  by (simp add: offs_def)

lemma offs_Cons: "i < j \<Longrightarrow> offs M s i j = (s + M * int i) # offs M s (Suc i) j"
  by (simp add: offs_def upt_conv_Cons)

lemma offs_empty: "offs M s i j = [] \<longleftrightarrow> j \<le> i"
  by (auto simp: offs_def)

lemma getChunkData_error: "getChunkData a p = Inl e \<Longrightarrow> e = ChunkFetchError"
  by (auto simp: getChunkData_def split: option.splits)

lemma inv_init: "gen_inv a M s (init_state k)"
  by (simp add: gen_inv_def init_state_def offs_def)

lemma inv_push_next:
  assumes "gen_inv a M s st" "thrown st = None"
  shows "gen_inv a M s (push_next M s st)"
proof -
  from assms have c: "0 \<le> currChunk st" and le: "length (yielded st) \<le> nat (currChunk st)"
    by (simp_all add: gen_inv_def)
  have n: "nat (currChunk st + 1) = Suc (nat (currChunk st))" using c by simp
  show ?thesis
    using assms c le
    by (auto simp: gen_inv_def push_next_def downloadData_def next_offset_def Let_def n offs_Suc)
qed

lemma yield_promise_fields [simp]:
  "currChunk (yield_promise a sched p st) = currChunk st"
  "processing (yield_promise a sched p st) = processing st"
  "issued (yield_promise a sched p st) = issued st"
  "peak (yield_promise a sched p st) = peak st"
  "meta_requests (yield_promise a sched p st) = meta_requests st"
  by (simp_all add: yield_promise_def Let_def split: sum.splits)

lemma yield_promise_sum:
  "processedBytes (yield_promise a sched p st)
     + sum_list (map (body_length a) (pending (yield_promise a sched p st)))
   = processedBytes st + sum_list (map (body_length a) (pending st))"
  using fold_settle_sum [of a "sched (awaits st) @ [p]" "(pending st, processedBytes st)"]
  by (simp add: yield_promise_def Let_def split: sum.splits)

lemma yield_promise_pending:
  "mset (pending (yield_promise a sched p st)) \<subseteq># mset (pending st) - {#p#}"
  using fold_settle_last [of a "sched (awaits st)" p "(pending st, processedBytes st)"]
  by (simp add: yield_promise_def Let_def split: sum.splits)

lemma yield_promise_Inr:
  "getChunkData a p = Inr r \<Longrightarrow>
     yielded (yield_promise a sched p st) = yielded st @ [r] \<and>
     thrown (yield_promise a sched p st) = thrown st"
  by (simp add: yield_promise_def Let_def)

lemma yield_promise_Inl:
  "getChunkData a p = Inl e \<Longrightarrow>
     yielded (yield_promise a sched p st) = yielded st \<and>
     thrown (yield_promise a sched p st) = Some ChunkFetchError"
  by (frule getChunkData_error) (simp add: yield_promise_def Let_def)

lemma inv_yield_shift:
  assumes "gen_inv a M s st" "thrown st = None" "processing st \<noteq> []"
  shows "gen_inv a M s (yield_shift a sched st)"
proof -
  let ?k = "length (yielded st)" and ?c = "nat (currChunk st)"
  from assms have q: "processing st = offs M s ?k ?c" and le: "?k \<le> ?c"
    and pq: "mset (pending st) \<subseteq># mset (processing st)"
    by (auto simp: gen_inv_def)
  from q assms(3) le have lt: "?k < ?c" by (auto simp: offs_empty)
  let ?p = "s + M * int ?k"
  let ?st = "st\<lparr>processing := offs M s (Suc ?k) ?c\<rparr>"
  have ys: "yield_shift a sched st = yield_promise a sched ?p ?st"
    using q lt by (simp add: yield_shift_def offs_Cons)
  have pend: "mset (pending (yield_promise a sched ?p ?st)) \<subseteq># mset (offs M s (Suc ?k) ?c)"
  proof -
    have "mset (pending (yield_promise a sched ?p ?st)) \<subseteq># mset (pending ?st) - {#?p#}"
      by (rule yield_promise_pending)
    also have "\<dots> \<subseteq># mset (processing st) - {#?p#}"
      using pq by (auto simp: subseteq_mset_def intro: diff_le_mono)
    also have "\<dots> = mset (offs M s (Suc ?k) ?c)"
      using q lt by (simp add: offs_Cons)
    finally show ?thesis .
  qed
  have sum: "processedBytes (yield_promise a sched ?p ?st)
     + sum_list (map (body_length a) (pending (yield_promise a sched ?p ?st)))
     = sum_list (map (body_length a) (issued st))"
    using assms(1) yield_promise_sum [of a sched ?p ?st] by (simp add: gen_inv_def)
  show ?thesis
  proof (cases "getChunkData a ?p")
    case (Inl e)
    from Inl have "getChunkData a ?p = Inl ChunkFetchError"
      by (simp add: getChunkData_error)
    with yield_promise_Inl [OF Inl, of sched ?st] assms(1) sum lt show ?thesis
      unfolding ys by (simp add: gen_inv_def)
  next
    case (Inr r)
    from yield_promise_Inr [OF Inr, of sched ?st] assms(1,2) sum pend lt Inr show ?thesis
      unfolding ys by (simp add: gen_inv_def offs_Suc)
  qed
qed

lemma inv_yield_next:
  assumes "gen_inv a M s st" "thrown st = None" "processing st = []"
  shows "gen_inv a M s (yield_next a sched M s st)"
proof -
  have "yield_next a sched M s st
      = yield_shift a sched (push_next M s st)"
    using assms(3)
    by (simp add: yield_next_def yield_shift_def push_next_def Let_def downloadData_def
          yield_promise_def split: sum.splits)
  moreover have "thrown (push_next M s st) = None" "processing (push_next M s st) \<noteq> []"
    using assms(2) by (simp_all add: push_next_def Let_def downloadData_def)
  ultimately show ?thesis
    using inv_yield_shift [OF inv_push_next [OF assms(1,2)]] by simp
qed

lemma push_next_thrown [simp]: "thrown (push_next M s st) = thrown st"
  by (simp add: push_next_def downloadData_def Let_def)

lemma inv_fill_window:
  "gen_inv a M s st \<Longrightarrow> thrown st = None \<Longrightarrow>
     gen_inv a M s (fill_window M s c i st) \<and> thrown (fill_window M s c i st) = None"
proof (induction M s c i st rule: fill_window.induct)
  case (1 M s c i st)
  show ?case
  proof (cases "i < c")
    case True
    with 1 show ?thesis
      by (simp add: inv_push_next fill_window.simps [of M s c i st])
  next
    case False
    with "1.prems" show ?thesis by (simp add: fill_window.simps [of M s c i st])
  qed
qed

lemma inv_parallel_loop:
  "gen_inv a M s st \<Longrightarrow> gen_inv a M s (parallel_loop a sched M s pc st)"
proof (induction a sched M s pc st rule: parallel_loop.induct)
  case (1 a sched M s pc st)
  show ?case
  proof (cases "thrown st = None \<and> currChunk st < pc")
    case True
    have "processing (push_next M s st) \<noteq> []"
      by (simp add: push_next_def Let_def downloadData_def)
    with True 1 show ?thesis
      by (simp add: inv_push_next inv_yield_shift parallel_loop.simps [of a sched M s pc st])
  next
    case False
    with "1.prems" show ?thesis by (auto simp: parallel_loop.simps [of a sched M s pc st])
  qed
qed

lemma inv_drain_loop:
  "gen_inv a M s st \<Longrightarrow> gen_inv a M s (drain_loop a sched st)"
proof (induction a sched st rule: drain_loop.induct)
  case (1 a sched st)
  show ?case
  proof (cases "thrown st = None \<and> processing st \<noteq> []")
    case True
    with 1 show ?thesis by (simp add: inv_yield_shift drain_loop.simps [of a sched st])
  next
    case False
    with "1.prems" show ?thesis by (auto simp: drain_loop.simps [of a sched st])
  qed
qed

lemma drain_loop_done:
  "thrown (drain_loop a sched st) = None \<Longrightarrow> processing (drain_loop a sched st) = []"
proof (induction a sched st rule: drain_loop.induct)
  case (1 a sched st)
  show ?case
  proof (cases "thrown st = None \<and> processing st \<noteq> []")
    case True
    with 1 show ?thesis by (simp add: drain_loop.simps [of a sched st])
  next
    case False
    with "1.prems" show ?thesis by (auto simp: drain_loop.simps [of a sched st])
  qed
qed

lemma inv_parallel_phase:
  "gen_inv a M s (parallel_phase a sched M s n opt (init_state k))"
  unfolding parallel_phase_def Let_def
  by (intro inv_drain_loop inv_parallel_loop conjunct1 [OF inv_fill_window] inv_init)
     (simp add: init_state_def)

lemma sum_bodies:
  "map Inr ys = map (getChunkData a) os \<Longrightarrow>
     sum_list (map (body_length a) os) = int (length (concat ys))"
proof (induction ys arbitrary: os)
  case Nil
  then show ?case by simp
next
  case (Cons y ys)
  then obtain p ps where os: "os = p # ps" by (cases os) auto
  with Cons.prems have "getChunkData a p = Inr y" "map Inr ys = map (getChunkData a) ps"
    by auto
  with Cons.IH [of ps] os show ?case by (simp add: body_length_def)
qed

lemma quiescent:
  assumes "gen_inv a M s st" "thrown st = None" "processing st = []"
  shows "pending st = []" "length (yielded st) = nat (currChunk st)"
    "processedBytes st = int (length (concat (yielded st)))"
    "length (issued st) = length (yielded st)"
proof -
  from assms show p: "pending st = []" by (auto simp: gen_inv_def)
  from assms have "offs M s (length (yielded st)) (nat (currChunk st)) = []"
    and "length (yielded st) \<le> nat (currChunk st)"
    by (auto simp: gen_inv_def)
  then show k: "length (yielded st) = nat (currChunk st)" by (auto simp: offs_empty)
  from assms have i: "issued st = offs M s 0 (nat (currChunk st))"
    and y: "map Inr (yielded st) = map (getChunkData a) (offs M s 0 (length (yielded st)))"
    and b: "processedBytes st + sum_list (map (body_length a) (pending st))
       = sum_list (map (body_length a) (issued st))"
    by (auto simp: gen_inv_def)
  from sum_bodies [OF y] b p i k
  show "processedBytes st = int (length (concat (yielded st)))" by simp
  from i k show "length (issued st) = length (yielded st)" by (simp add: offs_def)
qed

lemma settle_pair:
  "settle a off (pend, b) =
     (if off \<in> set pend then (remove1 off pend, b + body_length a off) else (pend, b))"
  by (simp add: settle_def)

lemma fold_settle_empty: "fold (settle a) xs ([], b) = ([], b)"
  by (induction xs) (simp_all add: settle_pair)

lemma fold_settle_single:
  "settle a p (fold (settle a) xs ([p], b)) = ([], b + body_length a p)"
  by (induction xs) (simp_all add: settle_pair fold_settle_empty)

lemma yield_next_fields:
  "currChunk (yield_next a sched M s st) = currChunk st + 1"
  "processing (yield_next a sched M s st) = processing st"
  "issued (yield_next a sched M s st) = issued st @ [next_offset M s st]"
  "meta_requests (yield_next a sched M s st) = meta_requests st"
  "peak (yield_next a sched M s st) = max (peak st) (Suc (length (pending st)))"
  "yielded (yield_next a sched M s st) =
     (case getChunkData a (next_offset M s st) of Inl e \<Rightarrow> yielded st | Inr r \<Rightarrow> yielded st @ [r])"
  "thrown (yield_next a sched M s st) =
     (case getChunkData a (next_offset M s st) of Inl e \<Rightarrow> Some e | Inr r \<Rightarrow> thrown st)"
  by (simp_all add: yield_next_def yield_promise_def downloadData_def Let_def split: sum.splits)

lemma yield_next_quiet:
  assumes "pending st = []"
  shows "pending (yield_next a sched M s st) = []"
    "processedBytes (yield_next a sched M s st)
       = processedBytes st + body_length a (next_offset M s st)"
  using assms
  by (simp_all add: yield_next_def yield_promise_def downloadData_def Let_def fold_settle_single
        split: sum.splits)

lemma tail_phase_shape:
  assumes inv: "gen_inv a M s st" and q: "thrown st = None \<longrightarrow> processing st = []"
  shows "\<exists>st'. gen_inv a M s st' \<and> (thrown st' = None \<longrightarrow> processing st' = []) \<and>
           tail_phase a sched M s sz st = finished sz st'"
proof (cases "thrown st = None")
  case False
  with inv q have "gen_inv a M s st \<and> (thrown st = None \<longrightarrow> processing st = []) \<and>
           tail_phase a sched M s sz st = finished sz st"
    by (auto simp: tail_phase_def finished_def)
  then show ?thesis ..
next
  case True
  let ?st1 = "yield_next a sched M s st"
  have inv1: "gen_inv a M s ?st1" using inv True q by (simp add: inv_yield_next)
  have p1: "processing ?st1 = []" using True q by (simp add: yield_next_fields)
  show ?thesis
  proof (cases "thrown ?st1 = None")
    case False
    with inv1 p1 True have "gen_inv a M s ?st1 \<and> (thrown ?st1 = None \<longrightarrow> processing ?st1 = []) \<and>
           tail_phase a sched M s sz st = finished sz ?st1"
      by (auto simp: tail_phase_def Let_def finished_def)
    then show ?thesis ..
  next
    case t1: True
    let ?st2 = "if processedBytes ?st1 < sz then yield_next a sched M s ?st1 else ?st1"
    have inv2: "gen_inv a M s ?st2" using inv1 t1 p1 by (simp add: inv_yield_next)
    have p2: "processing ?st2 = []" using p1 by (simp add: yield_next_fields)
    have "tail_phase a sched M s sz st = finished sz ?st2"
      using True t1 by (simp add: tail_phase_def Let_def finished_def)
    with inv2 p2 have "gen_inv a M s ?st2 \<and> (thrown ?st2 = None \<longrightarrow> processing ?st2 = []) \<and>
           tail_phase a sched M s sz st = finished sz ?st2"
      by simp
    then show ?thesis ..
  qed
qed

lemma parallel_phase_quiet:
  "thrown (parallel_phase a sched M s n opt st) = None \<longrightarrow>
     processing (parallel_phase a sched M s n opt st) = []"
  unfolding parallel_phase_def Let_def using drain_loop_done by blast

lemma run_plan_shape:
  "\<exists>st'. gen_inv a M s st' \<and> (thrown st' = None \<longrightarrow> processing st' = []) \<and>
     run_plan a sched M s sz n opt (init_state k) = finished sz st'"
  unfolding run_plan_def
  by (rule tail_phase_shape [OF inv_parallel_phase parallel_phase_quiet])

lemma run_plan_ordered:
  "map Inr (yielded (run_plan a sched M s sz n opt (init_state k)))
     = map (\<lambda>i. getChunkData a (s + M * int i))
         [0..<length (yielded (run_plan a sched M s sz n opt (init_state k)))]"
proof -
  from run_plan_shape [where a=a and M=M and s=s and sched=sched and sz=sz and n=n
        and opt=opt and k=k]
  obtain st' where h: "gen_inv a M s st' \<and> (thrown st' = None \<longrightarrow> processing st' = []) \<and>
     run_plan a sched M s sz n opt (init_state k) = finished sz st'" ..
  then show ?thesis by (simp add: gen_inv_def offs_def finished_def)
qed

lemma run_plan_accounting:
  fixes a sched M s sz n opt k
  defines "out \<equiv> run_plan a sched M s sz n opt (init_state k)"
  shows "thrown out = None \<and> int (length (concat (yielded out))) = sz
       \<or> thrown out = Some (SizeMismatchError (int (length (concat (yielded out)))) sz)
           \<and> int (length (concat (yielded out))) \<noteq> sz
           \<and> length (yielded out) = length (issued out) \<and> pending out = []
       \<or> thrown out = Some ChunkFetchError"
proof -
  from run_plan_shape [where a=a and M=M and s=s and sched=sched and sz=sz and n=n
        and opt=opt and k=k]
  obtain st' where h: "gen_inv a M s st' \<and> (thrown st' = None \<longrightarrow> processing st' = []) \<and>
     run_plan a sched M s sz n opt (init_state k) = finished sz st'" ..
  then have inv: "gen_inv a M s st'"
    and q: "thrown st' = None \<longrightarrow> processing st' = []"
    and out: "out = finished sz st'"
    by (simp_all add: out_def)
  show ?thesis
  proof (cases "thrown st' = None")
    case False
    with inv out show ?thesis by (simp add: gen_inv_def finished_def)
  next
    case True
    with q have "processing st' = []" by simp
    note quiescent [OF inv True this]
    with True out show ?thesis by (auto simp: finished_def)
  qed
qed


subsection \<open>The end of the parallel phase and the tail\<close>

lemma push_next_fields [simp]:
  "currChunk (push_next M s st) = currChunk st + 1"
  "pending (push_next M s st) = pending st @ [next_offset M s st]"
  "processing (push_next M s st) = processing st @ [next_offset M s st]"
  "peak (push_next M s st) = max (peak st) (Suc (length (pending st)))"
  "yielded (push_next M s st) = yielded st"
  by (simp_all add: push_next_def Let_def downloadData_def)

lemma fill_window_props:
  "currChunk (fill_window M s c i st) = currChunk st + max 0 (c - i) \<and>
   length (pending (fill_window M s c i st)) = length (pending st) + nat (c - i)"
proof (induction M s c i st rule: fill_window.induct)
  case (1 M s c i st)
  show ?case
  proof (cases "i < c")
    case True
    then have "nat (c - i) = Suc (nat (c - (i + 1)))" by simp
    with True 1 show ?thesis
      by (simp add: fill_window.simps [of M s c i st])
  next
    case False
    then show ?thesis by (simp add: fill_window.simps [of M s c i st])
  qed
qed

lemma yield_shift_currChunk [simp]: "currChunk (yield_shift a sched st) = currChunk st"
  by (simp add: yield_shift_def split: list.splits)

lemma parallel_loop_currChunk:
  "currChunk (parallel_loop a sched M s pc st) \<le> max pc (currChunk st) \<and>
   (thrown (parallel_loop a sched M s pc st) = None \<longrightarrow>
      currChunk (parallel_loop a sched M s pc st) = max pc (currChunk st))"
proof (induction a sched M s pc st rule: parallel_loop.induct)
  case (1 a sched M s pc st)
  show ?case
  proof (cases "thrown st = None \<and> currChunk st < pc")
    case True
    with 1 show ?thesis
      by (simp add: parallel_loop.simps [of a sched M s pc st])
  next
    case False
    then show ?thesis by (auto simp: parallel_loop.simps [of a sched M s pc st])
  qed
qed

lemma drain_loop_currChunk [simp]: "currChunk (drain_loop a sched st) = currChunk st"
proof (induction a sched st rule: drain_loop.induct)
  case (1 a sched st)
  show ?case
  proof (cases "thrown st = None \<and> processing st \<noteq> []")
    case True
    with 1 show ?thesis by (simp add: drain_loop.simps [of a sched st])
  next
    case False
    then show ?thesis by (auto simp: drain_loop.simps [of a sched st])
  qed
qed

lemma drain_loop_stopped: "thrown st \<noteq> None \<Longrightarrow> drain_loop a sched st = st"
  by (auto simp: drain_loop.simps [of a sched st])

lemma parallel_phase_currChunk:
  "currChunk (parallel_phase a sched M s n opt (init_state k)) \<le> max 0 (n - 2) \<and>
   (thrown (parallel_phase a sched M s n opt (init_state k)) = None \<longrightarrow>
      currChunk (parallel_phase a sched M s n opt (init_state k)) = max 0 (n - 2))"
proof -
  let ?f = "fill_window M s (min (n - 2) opt) 0 (init_state k)"
  have f: "currChunk ?f = max 0 (min (n - 2) opt)"
    using fill_window_props [of M s "min (n - 2) opt" 0 "init_state k"]
    by (simp add: init_state_def)
  then have m: "max (n - 2) (currChunk ?f) = max 0 (n - 2)" by simp
  show ?thesis
    using parallel_loop_currChunk [of a sched M s "n - 2" ?f] 
    unfolding m
    by (cases "thrown (parallel_loop a sched M s (n - 2) ?f) = None")
       (auto simp: parallel_phase_def Let_def drain_loop_stopped)
qed

lemma tail_phase_explicit:
  fixes M s :: int and st :: gen_state
  assumes "thrown st = None" "pending st = []"
  defines "p \<equiv> s + M * currChunk st" and "p' \<equiv> s + M * (currChunk st + 1)"
  shows "issued (tail_phase a sched M s sz st) = issued st @ p #
           (case getChunkData a p of
              Inl e \<Rightarrow> []
            | Inr r \<Rightarrow> if processedBytes st + int (length r) < sz then [p'] else [])"
    and "yielded (tail_phase a sched M s sz st) = yielded st @
           (case getChunkData a p of
              Inl e \<Rightarrow> []
            | Inr r \<Rightarrow> r # (if processedBytes st + int (length r) < sz
                            then (case getChunkData a p' of Inl e \<Rightarrow> [] | Inr r' \<Rightarrow> [r'])
                            else []))"
    and "thrown (tail_phase a sched M s sz st) =
           (case getChunkData a p of
              Inl e \<Rightarrow> Some e
            | Inr r \<Rightarrow>
                if processedBytes st + int (length r) < sz
                then (case getChunkData a p' of
                        Inl e \<Rightarrow> Some e
                      | Inr r' \<Rightarrow>
                          if sz = processedBytes st + int (length r) + int (length r') then None
                          else Some (SizeMismatchError
                                 (processedBytes st + int (length r) + int (length r')) sz))
                else if sz = processedBytes st + int (length r) then None
                else Some (SizeMismatchError (processedBytes st + int (length r)) sz))"
    and "peak (tail_phase a sched M s sz st) = max (peak st) 1"
  using assms(1,2) unfolding p_def p'_def
  by (simp_all add: tail_phase_def Let_def yield_next_fields yield_next_quiet next_offset_def
        body_length_def split: sum.splits)

lemma parallel_phase_init:
  "n \<le> 2 \<Longrightarrow> parallel_phase a sched M s n opt (init_state k) = init_state k"
  by (simp add: parallel_phase_def Let_def fill_window.simps parallel_loop.simps
        drain_loop.simps init_state_def)

lemma parallel_phase_end:
  fixes a sched M s n opt k
  assumes "thrown (parallel_phase a sched M s n opt (init_state k)) = None"
  defines "st \<equiv> parallel_phase a sched M s n opt (init_state k)"
  shows "currChunk st = max 0 (n - 2)" "pending st = []" "processing st = []"
    "processedBytes st = int (length (concat (yielded st)))"
    "length (yielded st) = nat (max 0 (n - 2))"
proof -
  have t: "thrown st = None" using assms(1) by (simp add: st_def)
  have inv: "gen_inv a M s st" unfolding st_def by (rule inv_parallel_phase)
  have q: "processing st = []" using parallel_phase_quiet t unfolding st_def by blast
  show c: "currChunk st = max 0 (n - 2)"
    using parallel_phase_currChunk [of a sched M s n opt k] t by (simp add: st_def)
  from quiescent [OF inv t q] c q
  show "pending st = []" "processing st = []"
    "processedBytes st = int (length (concat (yielded st)))"
    "length (yielded st) = nat (max 0 (n - 2))"
    by simp_all
qed

lemma offs_take: "i \<le> j \<Longrightarrow> take i (offs M s 0 j) = offs M s 0 i"
  by (simp add: offs_def take_map)

lemma ordered_prefix:
  assumes "map Inr ys = map (getChunkData a) (offs M s 0 (length ys))"
    and "map Inr zs = map (getChunkData a) (offs M s 0 (length zs))"
    and "length ys \<le> length zs"
  shows "ys = take (length ys) zs"
proof -
  have "map Inr (take (length ys) zs) = take (length ys) (map (getChunkData a) (offs M s 0 (length zs)))"
    using arg_cong [OF assms(2), of "take (length ys)"] by (simp add: take_map)
  also have "\<dots> = map (getChunkData a) (offs M s 0 (length ys))"
    using assms(3) by (simp add: take_map offs_take)
  finally have "map (Inr :: bytes \<Rightarrow> error + bytes) (take (length ys) zs) = map Inr ys"
    using assms(1) by simp
  then show ?thesis by (simp add: inj_map_eq_map)
qed

lemma ordered_nth:
  assumes "map Inr zs = map (getChunkData a) (offs M s 0 (length zs))" "i < length zs"
  shows "getChunkData a (s + M * int i) = Inr (zs ! i)"
proof -
  have "map Inr zs ! i = map (getChunkData a) (offs M s 0 (length zs)) ! i"
    using assms(1) by simp
  with assms(2) show ?thesis by (simp add: offs_def)
qed

text \<open>What a parallel phase leaves behind does not depend on schedule or window.\<close>

lemma parallel_phase_unique:
  fixes a sched sched' M s n opt opt' k k'
  defines "st \<equiv> parallel_phase a sched M s n opt (init_state k)"
    and "st' \<equiv> parallel_phase a sched' M s n opt' (init_state k')"
  shows "yielded st = yielded st' \<and> thrown st = thrown st'"
proof -
  let ?N = "nat (max 0 (n - 2))"
  have inv: "gen_inv a M s st" "gen_inv a M s st'"
    unfolding st_def st'_def by (rule inv_parallel_phase)+
  then have y: "map Inr (yielded st) = map (getChunkData a) (offs M s 0 (length (yielded st)))"
    and y': "map Inr (yielded st') = map (getChunkData a) (offs M s 0 (length (yielded st')))"
    by (simp_all add: gen_inv_def)
  have full: "thrown st = None \<Longrightarrow> length (yielded st) = ?N"
    "thrown st' = None \<Longrightarrow> length (yielded st') = ?N"
    using parallel_phase_end(5) unfolding st_def st'_def by blast+
  have c: "nat (currChunk st) \<le> ?N" "nat (currChunk st') \<le> ?N"
    using parallel_phase_currChunk [of a sched M s n opt k]
      parallel_phase_currChunk [of a sched' M s n opt' k']
    unfolding st_def st'_def by linarith+
  have part: "thrown st \<noteq> None \<Longrightarrow> thrown st = Some ChunkFetchError \<and> length (yielded st) < ?N \<and>
      getChunkData a (s + M * int (length (yielded st))) = Inl ChunkFetchError"
    "thrown st' \<noteq> None \<Longrightarrow> thrown st' = Some ChunkFetchError \<and> length (yielded st') < ?N \<and>
      getChunkData a (s + M * int (length (yielded st'))) = Inl ChunkFetchError"
    using inv c by (auto simp: gen_inv_def)
  have no: "length (yielded st) < length (yielded st') \<Longrightarrow> thrown st = None"
    "length (yielded st') < length (yielded st) \<Longrightarrow> thrown st' = None"
    using ordered_nth [OF y'] ordered_nth [OF y] part by fastforce+
  have len: "length (yielded st) = length (yielded st')"
  proof (rule ccontr)
    assume "length (yielded st) \<noteq> length (yielded st')"
    then consider "length (yielded st) < length (yielded st')"
      | "length (yielded st') < length (yielded st)" by linarith
    then show False
    proof cases
      case 1
      with no(1) full(1) have "length (yielded st') > ?N" by simp
      with part(2) full(2) show False by (cases "thrown st' = None") auto
    next
      case 2
      with no(2) full(2) have "length (yielded st) > ?N" by simp
      with part(1) full(1) show False by (cases "thrown st = None") auto
    qed
  qed
  with ordered_prefix [OF y y'] have ys: "yielded st = yielded st'" by simp
  have "thrown st = thrown st'"
  proof (cases "thrown st = None")
    case True
    with full(1) len part(2) show ?thesis by (cases "thrown st' = None") auto
  next
    case False
    with part(1) full(2) len part(2) show ?thesis by (cases "thrown st' = None") auto
  qed
  with ys show ?thesis by simp
qed

lemma tail_phase_stopped: "thrown st \<noteq> None \<Longrightarrow> tail_phase a sched M s sz st = st"
  by (simp add: tail_phase_def)

lemma run_plan_unique:
  "yielded (run_plan a sched M s sz n opt (init_state k))
     = yielded (run_plan a sched' M s sz n opt' (init_state k')) \<and>
   thrown (run_plan a sched M s sz n opt (init_state k))
     = thrown (run_plan a sched' M s sz n opt' (init_state k'))"
proof -
  let ?st = "parallel_phase a sched M s n opt (init_state k)"
  let ?st' = "parallel_phase a sched' M s n opt' (init_state k')"
  have u: "yielded ?st = yielded ?st'" "thrown ?st = thrown ?st'"
    using parallel_phase_unique [of a sched M s n opt k sched' opt' k'] by simp_all
  show ?thesis
  proof (cases "thrown ?st = None")
    case False
    with u show ?thesis by (simp add: run_plan_def tail_phase_stopped)
  next
    case True
    with u have t': "thrown ?st' = None" by simp
    note e = parallel_phase_end [OF True] and e' = parallel_phase_end [OF t']
    from e(1) e'(1) e(4) e'(4) u(1)
    have c: "currChunk ?st = currChunk ?st'" and b: "processedBytes ?st = processedBytes ?st'"
      by simp_all
    show ?thesis
      unfolding run_plan_def tail_phase_explicit [OF True e(2)]
        tail_phase_explicit [OF t' e'(2)] c b u(1) by simp
  qed
qed

lemma yield_shift_push_next:
  "processing st = [] \<Longrightarrow> yield_shift a sched (push_next M s st) = yield_next a sched M s st"
  by (simp add: yield_next_def yield_shift_def push_next_def Let_def downloadData_def
        yield_promise_def split: sum.splits)

lemma parallel_loop_one_by_one:
  "pending st = [] \<Longrightarrow> processing st = [] \<Longrightarrow>
     pending (parallel_loop a sched M s pc st) = [] \<and>
     processing (parallel_loop a sched M s pc st) = [] \<and>
     peak (parallel_loop a sched M s pc st) \<le> max (peak st) 1"
proof (induction a sched M s pc st rule: parallel_loop.induct)
  case (1 a sched M s pc st)
  show ?case
  proof (cases "thrown st = None \<and> currChunk st < pc")
    case True
    have "pending (yield_next a sched M s st) = []" "processing (yield_next a sched M s st) = []"
      "peak (yield_next a sched M s st) = max (peak st) 1"
      using "1.prems" by (simp_all add: yield_next_quiet yield_next_fields)
    with True "1.IH" "1.prems" show ?thesis
      by (simp add: parallel_loop.simps [of a sched M s pc st] yield_shift_push_next)
  next
    case False
    with "1.prems" show ?thesis by (auto simp: parallel_loop.simps [of a sched M s pc st])
  qed
qed

lemma run_plan_one_by_one:
  assumes "opt \<le> 0"
  shows "peak (run_plan a sched M s sz n opt (init_state k)) \<le> 1"
proof -
  have f: "fill_window M s (min (n - 2) opt) 0 (init_state k) = init_state k"
    using assms by (simp add: fill_window.simps)
  let ?st = "parallel_loop a sched M s (n - 2) (init_state k)"
  have p: "pending ?st = []" "processing ?st = []" "peak ?st \<le> 1"
    using parallel_loop_one_by_one [of "init_state k" a sched M s "n - 2"]
    by (simp_all add: init_state_def)
  then have d: "parallel_phase a sched M s n opt (init_state k) = ?st"
    by (simp add: parallel_phase_def Let_def f drain_loop.simps)
  show ?thesis
  proof (cases "thrown ?st = None")
    case True
    with p show ?thesis by (simp add: run_plan_def d tail_phase_explicit)
  next
    case False
    with p show ?thesis by (simp add: run_plan_def d tail_phase_stopped)
  qed
qed

lemma peak_yield_shift [simp]: "peak (yield_shift a sched st) = peak st"
  by (simp add: yield_shift_def split: list.splits)

lemma peak_parallel_loop: "peak st \<le> peak (parallel_loop a sched M s pc st)"
proof (induction a sched M s pc st rule: parallel_loop.induct)
  case (1 a sched M s pc st)
  show ?case
  proof (cases "thrown st = None \<and> currChunk st < pc")
    case True
    with 1 show ?thesis by (simp add: parallel_loop.simps [of a sched M s pc st])
  next
    case False
    then show ?thesis by (auto simp: parallel_loop.simps [of a sched M s pc st])
  qed
qed

lemma peak_drain_loop [simp]: "peak (drain_loop a sched st) = peak st"
proof (induction a sched st rule: drain_loop.induct)
  case (1 a sched st)
  show ?case
  proof (cases "thrown st = None \<and> processing st \<noteq> []")
    case True
    with 1 show ?thesis by (simp add: drain_loop.simps [of a sched st])
  next
    case False
    then show ?thesis by (auto simp: drain_loop.simps [of a sched st])
  qed
qed

lemma peak_tail_phase: "peak st \<le> peak (tail_phase a sched M s sz st)"
  by (auto simp: tail_phase_def Let_def yield_next_fields(5) le_max_iff_disj)

lemma window_exceeded:
  assumes "0 \<le> opt" "opt < n - 2"
  shows "opt + 1 \<le> int (peak (run_plan a sched M s sz n opt (init_state k)))"
proof -
  let ?f = "fill_window M s opt 0 (init_state k)"
  have m: "min (n - 2) opt = opt" using assms by simp
  have f: "currChunk ?f = opt" "length (pending ?f) = nat opt" "thrown ?f = None"
    using fill_window_props [of M s opt 0 "init_state k"]
      inv_fill_window [where st="init_state k" and a=a and M=M and s=s and c=opt and i=0,
        OF inv_init] assms(1)
    by (simp_all add: init_state_def)
  let ?g = "yield_shift a sched (push_next M s ?f)"
  have "parallel_loop a sched M s (n - 2) ?f = parallel_loop a sched M s (n - 2) ?g"
    using f assms by (simp add: parallel_loop.simps [of a sched M s "n - 2" ?f])
  moreover have "Suc (nat opt) \<le> peak ?g" using f by simp
  ultimately have "Suc (nat opt) \<le> peak (parallel_loop a sched M s (n - 2) ?f)"
    using peak_parallel_loop [of ?g a sched M s "n - 2"] by (simp only: order_trans)
  then have "Suc (nat opt) \<le> peak (parallel_phase a sched M s n opt (init_state k))"
    by (simp add: parallel_phase_def Let_def m)
  then have "Suc (nat opt) \<le> peak (run_plan a sched M s sz n opt (init_state k))"
    unfolding run_plan_def
    using peak_tail_phase [of "parallel_phase a sched M s n opt (init_state k)" a sched M s sz]
    by linarith
  with assms(1) show ?thesis by linarith
qed

lemma fill_window_peak:
  "peak (fill_window M s c i st) \<le> max (peak st) (length (pending st) + nat (c - i)) \<and>
   length (processing (fill_window M s c i st)) = length (processing st) + nat (c - i)"
proof (induction M s c i st rule: fill_window.induct)
  case (1 M s c i st)
  show ?case
  proof (cases "i < c")
    case True
    then have "nat (c - i) = Suc (nat (c - (i + 1)))" by simp
    with True 1 show ?thesis
      by (simp add: fill_window.simps [of M s c i st]) linarith
  next
    case False
    then show ?thesis by (simp add: fill_window.simps [of M s c i st])
  qed
qed

lemma pending_le_processing:
  "gen_inv a M s st \<Longrightarrow> thrown st = None \<Longrightarrow> length (pending st) \<le> length (processing st)"
proof -
  assume "gen_inv a M s st" "thrown st = None"
  then have "mset (pending st) \<subseteq># mset (processing st)" by (auto simp: gen_inv_def)
  from size_mset_mono [OF this] show ?thesis by simp
qed

lemma yield_shift_processing:
  "length (processing (yield_shift a sched st)) = length (processing st) - 1"
  by (simp add: yield_shift_def split: list.splits)

lemma parallel_loop_peak:
  "gen_inv a M s st \<Longrightarrow> (thrown st = None \<longrightarrow> length (processing st) \<le> W) \<Longrightarrow>
     peak st \<le> Suc W \<Longrightarrow> peak (parallel_loop a sched M s pc st) \<le> Suc W"
proof (induction a sched M s pc st rule: parallel_loop.induct)
  case (1 a sched M s pc st)
  show ?case
  proof (cases "thrown st = None \<and> currChunk st < pc")
    case True
    let ?st1 = "push_next M s st" and ?st2 = "yield_shift a sched (push_next M s st)"
    from True "1.prems" have i1: "gen_inv a M s ?st1" by (simp add: inv_push_next)
    have ne: "processing ?st1 \<noteq> []" by simp
    from i1 True ne have i2: "gen_inv a M s ?st2" by (simp add: inv_yield_shift)
    from pending_le_processing [OF "1.prems"(1)] True "1.prems"(2,3)
    have p: "peak ?st2 \<le> Suc W" by simp
    from True "1.prems"(2) have l: "length (processing ?st2) \<le> W"
      by (simp add: yield_shift_processing)
    from "1.IH" [OF True i2 _ p] l True show ?thesis
      by (simp add: parallel_loop.simps [of a sched M s pc st])
  next
    case False
    with "1.prems" show ?thesis by (auto simp: parallel_loop.simps [of a sched M s pc st])
  qed
qed

lemma window_bound:
  assumes "0 \<le> opt"
  shows "int (peak (run_plan a sched M s sz n opt (init_state k))) \<le> max 0 (min (n - 2) opt) + 1"
proof -
  let ?c = "min (n - 2) opt"
  let ?W = "nat ?c"
  let ?f = "fill_window M s ?c 0 (init_state k)"
  have f: "gen_inv a M s ?f" "peak ?f \<le> Suc ?W" "length (processing ?f) \<le> ?W"
    using fill_window_peak [of M s ?c 0 "init_state k"]
      inv_fill_window [where st="init_state k" and a=a and M=M and s=s and c="?c" and i=0,
        OF inv_init]
    by (simp_all add: init_state_def)
  let ?p = "parallel_phase a sched M s n opt (init_state k)"
  have p: "peak ?p \<le> Suc ?W"
    using parallel_loop_peak [where W="?W" and sched=sched and pc="n - 2", OF f(1) _ f(2)] f(3)
    by (simp add: parallel_phase_def Let_def)
  have "peak (run_plan a sched M s sz n opt (init_state k)) \<le> Suc ?W"
  proof (cases "thrown ?p = None")
    case True
    from parallel_phase_end(2) [OF True] p show ?thesis
      by (simp add: run_plan_def tail_phase_explicit [OF True])
  next
    case False
    with p show ?thesis by (simp add: run_plan_def tail_phase_stopped)
  qed
  then show ?thesis by linarith
qed


lemma run_plan_count:
  fixes a sched M s sz n opt k
  defines "out \<equiv> run_plan a sched M s sz n opt (init_state k)"
  assumes "thrown out \<noteq> Some ChunkFetchError"
  shows "length (yielded out) = nat (max 0 (n - 2)) + 1 \<or>
         length (yielded out) = nat (max 0 (n - 2)) + 2"
proof -
  let ?st = "parallel_phase a sched M s n opt (init_state k)"
  have inv: "gen_inv a M s ?st" by (rule inv_parallel_phase)
  show ?thesis
  proof (cases "thrown ?st = None")
    case False
    with inv have "thrown ?st = Some ChunkFetchError" by (simp add: gen_inv_def)
    with False assms(2) show ?thesis
      by (simp add: out_def run_plan_def tail_phase_stopped)
  next
    case True
    note e = parallel_phase_end [OF True]
    note x = tail_phase_explicit [OF True e(2), of a sched M s sz]
    let ?p = "s + M * currChunk ?st" and ?p' = "s + M * (currChunk ?st + 1)"
    from assms(2) obtain r where r: "getChunkData a ?p = Inr r"
      unfolding out_def run_plan_def x(3)
      by (cases "getChunkData a ?p") (auto dest: getChunkData_error)
    show ?thesis
    proof (cases "processedBytes ?st + int (length r) < sz")
      case False
      with r e(5) show ?thesis unfolding out_def run_plan_def x(2) by simp
    next
      case lt: True
      with assms(2) r obtain r' where "getChunkData a ?p' = Inr r'"
        unfolding out_def run_plan_def x(3)
        by (cases "getChunkData a ?p'") (auto dest: getChunkData_error)
      with lt r e(5) show ?thesis unfolding out_def run_plan_def x(2) by simp
    qed
  qed
qed

lemma run_plan_stops_at_failure:
  fixes a sched M s sz n opt k
  defines "out \<equiv> run_plan a sched M s sz n opt (init_state k)"
  assumes "thrown out = Some ChunkFetchError"
  shows "getChunkData a (s + M * int (length (yielded out))) = Inl ChunkFetchError"
proof -
  from run_plan_shape [where a=a and M=M and s=s and sched=sched and sz=sz and n=n
        and opt=opt and k=k]
  obtain st' where h: "gen_inv a M s st' \<and> (thrown st' = None \<longrightarrow> processing st' = []) \<and>
     run_plan a sched M s sz n opt (init_state k) = finished sz st'" ..
  with assms(2) have "thrown st' = Some ChunkFetchError" "yielded out = yielded st'"
    by (auto simp: out_def finished_def split: if_splits)
  with h show ?thesis by (simp add: gen_inv_def)
qed

lemma generator_run:
  "tx_offset a k ident = Some md \<Longrightarrow>
     concurrentDownloadChunkedData a sched M k ident options
       = run_plan a sched M (md_offset md - md_size md + 1) (md_size md) (chunks M (md_size md))
           (case options of None \<Rightarrow> 10 | Some c \<Rightarrow> c) (init_state (Suc k))"
  by (simp add: concurrentDownloadChunkedData_def getTransactionMetadata_def Let_def)

section \<open>Order and number of the yielded buffers\<close>

text \<open>
  C1. Whatever the order in which the requests in flight settle (every schedule
  \<open>sched\<close>), and for every configured concurrency, the \<open>i\<close>-th buffer the generator
  yields is the body fetched at offset \<open>startOffset + i * MAX_CHUNK_SIZE\<close> with
  \<open>startOffset = offset - size + 1\<close>: the buffers come in ascending chunk index. No
  chunk is left out: unless a chunk request fails, the buffers of all
  \<open>max 0 (chunkCount - 2)\<close> chunks of the parallel phase and of one or two tail chunks
  are yielded, and a failed request stops the sequence exactly at the chunk that failed.
  A run that ends normally has yielded exactly \<open>size\<close> bytes, so the concatenation of
  the buffers is the content in ascending offset order. The bounds \<open>1 \<le> size\<close> and
  \<open>size - 1 \<le> offset\<close> of the claim are not needed.
\<close>

theorem yielded_in_chunk_index_order:
  fixes a sched M k ident options md
  assumes "tx_offset a k ident = Some md"
  defines "out \<equiv> concurrentDownloadChunkedData a sched M k ident options"
    and "startOffset \<equiv> md_offset md - md_size md + 1"
    and "c \<equiv> nat (max 0 (chunks M (md_size md) - 2))"
  shows "map Inr (yielded out)
           = map (\<lambda>i. getChunkData a (startOffset + M * int i)) [0..<length (yielded out)] \<and>
         (thrown out \<noteq> Some ChunkFetchError \<longrightarrow>
            length (yielded out) = c + 1 \<or> length (yielded out) = c + 2) \<and>
         (thrown out = Some ChunkFetchError \<longrightarrow>
            getChunkData a (startOffset + M * int (length (yielded out))) = Inl ChunkFetchError) \<and>
         (thrown out = None \<longrightarrow> int (length (concat (yielded out))) = md_size md)"
proof -
  note g = generator_run [OF assms(1), of sched M options]
  have 1: "map Inr (yielded out)
           = map (\<lambda>i. getChunkData a (startOffset + M * int i)) [0..<length (yielded out)]"
    unfolding out_def startOffset_def g by (rule run_plan_ordered)
  have 2: "thrown out \<noteq> Some ChunkFetchError \<longrightarrow>
            length (yielded out) = c + 1 \<or> length (yielded out) = c + 2"
    unfolding out_def c_def g using run_plan_count by blast
  have 3: "thrown out = Some ChunkFetchError \<longrightarrow>
            getChunkData a (startOffset + M * int (length (yielded out))) = Inl ChunkFetchError"
    unfolding out_def startOffset_def g using run_plan_stops_at_failure by blast
  have 4: "thrown out = None \<longrightarrow> int (length (concat (yielded out))) = md_size md"
    unfolding out_def g
    using run_plan_accounting [of a sched M "md_offset md - md_size md + 1" "md_size md"
      "chunks M (md_size md)" "case options of None \<Rightarrow> 10 | Some c \<Rightarrow> c" "Suc k"]
    by auto
  from 1 2 3 4 show ?thesis by blast
qed

theorem yielded_in_chunk_index_order_witness:
  "tx_offset example_api 0 ''tx'' = Some example_md \<and>
   yielded (concurrentDownloadChunkedData example_api youngest_first 4 0 ''tx'' None)
     = [[1, 2, 3, 4], [5, 6, 7, 8], [9, 10, 11, 12], [13, 14]] \<and>
   thrown (concurrentDownloadChunkedData example_api youngest_first 4 0 ''tx'' None) = None \<and>
   map Inr (yielded (concurrentDownloadChunkedData example_api youngest_first 4 0 ''tx'' None))
     = map (\<lambda>i. getChunkData example_api (md_offset example_md - md_size example_md + 1 + 4 * int i))
         [0..<length (yielded (concurrentDownloadChunkedData example_api youngest_first 4 0 ''tx'' None))] \<and>
   int (length (concat (yielded (concurrentDownloadChunkedData example_api youngest_first 4 0 ''tx'' None))))
     = md_size example_md"
proof -
  have h: "tx_offset example_api 0 ''tx'' = Some example_md"
    by (simp add: example_api_def)
  have e: "yielded (concurrentDownloadChunkedData example_api youngest_first 4 0 ''tx'' None)
     = [[1, 2, 3, 4], [5, 6, 7, 8], [9, 10, 11, 12], [13, 14]]"
    and t: "thrown (concurrentDownloadChunkedData example_api youngest_first 4 0 ''tx'' None) = None"
    by code_simp+
  from h e t yielded_in_chunk_index_order [OF h, of youngest_first 4 None] show ?thesis
    by blast
qed

section \<open>The size check\<close>

text \<open>
  C2. A run that no failed chunk request aborts ends in one of two ways: normally, and
  then the yielded buffers together have exactly the declared size; or with the
  \<open>SizeMismatchError\<close> of line 131, which carries the byte total and the declared size
  and is thrown at the very end, when every issued request has been yielded and none is
  pending.
\<close>

theorem size_checked_at_end:
  assumes "tx_offset a k ident = Some md"
    and "thrown (concurrentDownloadChunkedData a sched M k ident options) \<noteq> Some ChunkFetchError"
  defines "out \<equiv> concurrentDownloadChunkedData a sched M k ident options"
  shows "thrown out = None \<and> int (length (concat (yielded out))) = md_size md
       \<or> thrown out = Some (SizeMismatchError (int (length (concat (yielded out)))) (md_size md))
           \<and> int (length (concat (yielded out))) \<noteq> md_size md
           \<and> length (yielded out) = length (issued out) \<and> pending out = []"
  using run_plan_accounting [of a sched M "md_offset md - md_size md + 1" "md_size md"
      "chunks M (md_size md)" "case options of None \<Rightarrow> 10 | Some c \<Rightarrow> c" "Suc k"] assms(2)
  unfolding out_def generator_run [OF assms(1)] by blast

theorem size_checked_at_end_witness:
  "tx_offset example_api 0 ''tx'' = Some example_md \<and>
   thrown (concurrentDownloadChunkedData example_api youngest_first 4 0 ''tx'' None) = None \<and>
   int (length (concat (yielded (concurrentDownloadChunkedData example_api youngest_first 4 0 ''tx'' None))))
     = md_size example_md"
proof -
  have h: "tx_offset example_api 0 ''tx'' = Some example_md"
    by (simp add: example_api_def)
  have t: "thrown (concurrentDownloadChunkedData example_api youngest_first 4 0 ''tx'' None) = None"
    by code_simp
  from size_checked_at_end [OF h, of youngest_first 4 None] h t show ?thesis
    by simp
qed

section \<open>A chunk count of zero\<close>

text \<open>
  C4. For a declared size of 0 the chunk count is 0 and the sequence should be empty,
  with no chunk request at all. The generator has no guard for the empty plan: line 128
  still issues one request, at \<open>startOffset = offset + 1 = 100\<close>, which lies outside
  the content, and yields its body. When the service answers that request with bytes,
  the generator yields them and then fails its own size check, and
  \<open>downloadChunkedData\<close> overflows its empty buffer.
\<close>

theorem no_chunks_still_fetches:
  "chunks 262144 (md_size empty_md) = 0 \<and>
   md_offset empty_md - md_size empty_md + 1 = 100 \<and>
   issued (concurrentDownloadChunkedData empty_api in_order 262144 0 ''tx'' None) = [100] \<and>
   yielded (concurrentDownloadChunkedData empty_api in_order 262144 0 ''tx'' None) = [[]] \<and>
   issued (concurrentDownloadChunkedData stray_api in_order 262144 0 ''tx'' None) = [100] \<and>
   yielded (concurrentDownloadChunkedData stray_api in_order 262144 0 ''tx'' None) = [[7, 7, 7]] \<and>
   thrown (concurrentDownloadChunkedData stray_api in_order 262144 0 ''tx'' None)
     = Some (SizeMismatchError 3 0) \<and>
   downloadChunkedData stray_api in_order 262144 ''tx'' = (Inl RangeError, 2)"
  by code_simp


section \<open>The tail phase\<close>

text \<open>
  C6, as the claim states it, fails for a chunk count of 1: when the body of chunk 0
  comes back shorter than the declared size, the second request of the tail goes to
  index 1 (offset 262244), not to index \<open>chunkCount - 1 = 0\<close> (offset 100).
\<close>

theorem tail_index_counterexample:
  "chunks 262144 (md_size short_md) = 1 \<and>
   issued (concurrentDownloadChunkedData short_api in_order 262144 0 ''tx'' None) = [100, 262244] \<and>
   md_offset short_md - md_size short_md + 1 + 262144 * (chunks 262144 (md_size short_md) - 1) = 100"
  by code_simp

text \<open>
  C6, amended. When the parallel phase has ended without a failed request, nothing is
  pending, the next unscheduled index is \<open>c = max 0 (chunkCount - 2)\<close>, and the
  generator requests chunk \<open>c\<close> unconditionally and yields its body. It then requests
  and yields chunk \<open>c + 1\<close> exactly when the bytes received so far are fewer than the
  declared size. Index \<open>c + 1\<close> is \<open>chunkCount - 1\<close> exactly when
  \<open>2 \<le> chunkCount\<close>.
\<close>

theorem tail_phase_requests:
  fixes a sched M k ident options md
  assumes "tx_offset a k ident = Some md"
  defines "s \<equiv> md_offset md - md_size md + 1"
    and "n \<equiv> chunks M (md_size md)"
    and "opt \<equiv> (case options of None \<Rightarrow> 10 | Some c \<Rightarrow> c)"
  defines "st \<equiv> parallel_phase a sched M s n opt (init_state (Suc k))"
    and "out \<equiv> concurrentDownloadChunkedData a sched M k ident options"
    and "c \<equiv> max 0 (n - 2)"
  defines "received \<equiv> int (length (concat (yielded st)))"
  assumes "thrown st = None"
  shows "currChunk st = c \<and> pending st = [] \<and>
         issued out = issued st @ (s + M * c) #
           (case getChunkData a (s + M * c) of
              Inl e \<Rightarrow> []
            | Inr r \<Rightarrow> if received + int (length r) < md_size md then [s + M * (c + 1)] else []) \<and>
         yielded out = yielded st @
           (case getChunkData a (s + M * c) of
              Inl e \<Rightarrow> []
            | Inr r \<Rightarrow> r # (if received + int (length r) < md_size md
                            then (case getChunkData a (s + M * (c + 1)) of
                                    Inl e \<Rightarrow> [] | Inr r' \<Rightarrow> [r'])
                            else [])) \<and>
         (c + 1 = n - 1 \<longleftrightarrow> 2 \<le> n)"
proof -
  have t: "thrown (parallel_phase a sched M s n opt (init_state (Suc k))) = None"
    using assms(9) by (simp add: st_def)
  note e = parallel_phase_end [OF t, folded st_def]
  have out: "out = tail_phase a sched M s (md_size md) st"
    unfolding out_def generator_run [OF assms(1)] run_plan_def st_def s_def n_def opt_def ..
  have "c + 1 = n - 1 \<longleftrightarrow> 2 \<le> n" by (auto simp: c_def)
  with e(1,2) show ?thesis
    unfolding out tail_phase_explicit [OF assms(9) e(2)] e(1) e(4) c_def received_def
    by simp
qed

theorem tail_phase_requests_witness:
  "tx_offset example_api 0 ''tx'' = Some example_md \<and>
   thrown (parallel_phase example_api youngest_first 4 (md_offset example_md - md_size example_md + 1)
      (chunks 4 (md_size example_md)) (case None of None \<Rightarrow> 10 | Some c \<Rightarrow> c)
      (init_state (Suc 0))) = None \<and>
   currChunk (parallel_phase example_api youngest_first 4 (md_offset example_md - md_size example_md + 1)
      (chunks 4 (md_size example_md)) (case None of None \<Rightarrow> 10 | Some c \<Rightarrow> c)
      (init_state (Suc 0))) = max 0 (chunks 4 (md_size example_md) - 2) \<and>
   issued (concurrentDownloadChunkedData example_api youngest_first 4 0 ''tx'' None)
     = [100, 104, 108, 112]"
proof -
  have h: "tx_offset example_api 0 ''tx'' = Some example_md"
    by (simp add: example_api_def)
  have t: "thrown (parallel_phase example_api youngest_first 4
      (md_offset example_md - md_size example_md + 1)
      (chunks 4 (md_size example_md)) (case None of None \<Rightarrow> 10 | Some c \<Rightarrow> c)
      (init_state (Suc 0))) = None"
    by code_simp
  have i: "issued (concurrentDownloadChunkedData example_api youngest_first 4 0 ''tx'' None)
     = [100, 104, 108, 112]"
    by code_simp
  from tail_phase_requests [OF h t] h t i show ?thesis by blast
qed

section \<open>The window of requests in flight\<close>

text \<open>
  C5. The bound \<open>min (chunkCount - 2) concurrency\<close> on the requests in flight does not
  hold: when more chunks are left for the parallel phase than the configured concurrency,
  the first turn of the loop of line 120 issues one more request before any of the window
  has been awaited, so \<open>concurrency + 1\<close> requests are pending at once, under every
  schedule; that number is never exceeded.
\<close>

theorem window_exceeds_concurrency:
  fixes a sched M k ident options md
  defines "c \<equiv> (case options of None \<Rightarrow> 10 | Some c \<Rightarrow> c)"
  assumes "tx_offset a k ident = Some md"
    and "0 \<le> c" and "c < chunks M (md_size md) - 2"
  shows "int (peak (concurrentDownloadChunkedData a sched M k ident options)) = c + 1 \<and>
         min (chunks M (md_size md) - 2) c
           < int (peak (concurrentDownloadChunkedData a sched M k ident options))"
  using window_exceeded [OF assms(3,4), of a sched M "md_offset md - md_size md + 1"
      "md_size md" "Suc k"]
    window_bound [OF assms(3), of a sched M "md_offset md - md_size md + 1" "md_size md"
      "chunks M (md_size md)" "Suc k"] assms(3,4)
  unfolding generator_run [OF assms(2)] c_def by simp

theorem window_exceeds_concurrency_witness:
  "tx_offset example_api 0 ''tx'' = Some example_md \<and> (0::int) \<le> 1 \<and>
   1 < chunks 4 (md_size example_md) - 2 \<and>
   min (chunks 4 (md_size example_md) - 2) 1 = 1 \<and>
   peak (concurrentDownloadChunkedData example_api youngest_first 4 0 ''tx'' (Some 1)) = 2"
proof -
  have h: "tx_offset example_api 0 ''tx'' = Some example_md"
    by (simp add: example_api_def)
  have c: "1 < chunks 4 (md_size example_md) - 2" by code_simp
  have m: "min (chunks 4 (md_size example_md) - 2) 1 = 1" using c by simp
  from window_exceeds_concurrency [where options = "Some 1" and sched = youngest_first, OF h] c
  have "int (peak (concurrentDownloadChunkedData example_api youngest_first 4 0 ''tx'' (Some 1))) = 2"
    by simp
  with h c m show ?thesis by simp
qed

section \<open>A concurrency option that is not positive\<close>

text \<open>
  C10. With a concurrency option of 0 or less the initial fill of line 118 does nothing,
  at most one request is pending at any time, and the run yields and throws exactly what
  a run with concurrency 1 does, whatever the two schedules are: the option causes no
  failure of its own.
\<close>

theorem nonpositive_concurrency:
  fixes a sched sched' M k ident md c st
  assumes "tx_offset a k ident = Some md" and "c \<le> 0"
  defines "out \<equiv> concurrentDownloadChunkedData a sched M k ident (Some c)"
    and "ref \<equiv> concurrentDownloadChunkedData a sched' M k ident (Some 1)"
  shows "yielded out = yielded ref \<and> thrown out = thrown ref \<and> peak out \<le> 1 \<and>
         fill_window M (md_offset md - md_size md + 1) (min (chunks M (md_size md) - 2) c) 0 st = st"
proof -
  have "fill_window M (md_offset md - md_size md + 1) (min (chunks M (md_size md) - 2) c) 0 st = st"
    using assms(2) by (simp add: fill_window.simps)
  moreover have "peak out \<le> 1"
    unfolding out_def generator_run [OF assms(1)]
    using run_plan_one_by_one [OF assms(2)] by simp
  moreover have "yielded out = yielded ref \<and> thrown out = thrown ref"
    unfolding out_def ref_def generator_run [OF assms(1)]
    using run_plan_unique by simp
  ultimately show ?thesis by simp
qed

theorem nonpositive_concurrency_witness:
  "tx_offset example_api 0 ''tx'' = Some example_md \<and> (0::int) \<le> 0 \<and>
   yielded (concurrentDownloadChunkedData example_api youngest_first 4 0 ''tx'' (Some 0))
     = yielded (concurrentDownloadChunkedData example_api in_order 4 0 ''tx'' (Some 1)) \<and>
   thrown (concurrentDownloadChunkedData example_api youngest_first 4 0 ''tx'' (Some 0)) = None \<and>
   peak (concurrentDownloadChunkedData example_api youngest_first 4 0 ''tx'' (Some 0)) = 1"
proof -
  have h: "tx_offset example_api 0 ''tx'' = Some example_md"
    by (simp add: example_api_def)
  have t: "thrown (concurrentDownloadChunkedData example_api youngest_first 4 0 ''tx'' (Some 0)) = None"
    "peak (concurrentDownloadChunkedData example_api youngest_first 4 0 ''tx'' (Some 0)) = 1"
    by code_simp+
  from nonpositive_concurrency [OF h, of 0 youngest_first 4 in_order] h t show ?thesis by simp
qed

section \<open>Precision of the chunk count\<close>

text \<open>Some values of the count of line 100; here it is the exact ceiling.\<close>

lemma chunks_examples:
  "chunks 262144 0 = 0" "chunks 262144 1 = 1" "chunks 262144 262144 = 1"
  "chunks 262144 262145 = 2" "chunks 262144 1048576 = 4" "chunks 262144 1048577 = 5"
  "chunks 262144 9007199254740991 = 34359738368"
  by code_simp+

text \<open>
  C3. The chunk count is not computed in arbitrary precision: line 100 converts the
  BigNumber quotient to a double before \<open>Math.ceil\<close>. For a size of
  \<open>2^54 + 1\<close> and \<open>MAX_CHUNK_SIZE = 262144\<close> the quotient
  \<open>2^36 + 2^-18\<close> rounds to \<open>2^36\<close>, so the computed count is 68719476736 while
  the exact ceiling is 68719476737: the chunks counted do not cover the content.
\<close>

theorem chunk_count_rounded:
  "chunks 262144 18014398509481985 = 68719476736 \<and>
   - ((- 18014398509481985) div 262144) = (68719476737 :: int) \<and>
   68719476736 * 262144 < (18014398509481985 :: int)"
  by code_simp

section \<open>downloadChunkedData and its two metadata requests\<close>

lemma write_chunks_explicit:
  "byte \<le> length data \<Longrightarrow>
   write_chunks data byte cs =
     (if length data < byte + length (concat cs) then Inl RangeError
      else Inr (take byte data @ concat cs @ drop (byte + length (concat cs)) data))"
proof (induction cs arbitrary: data byte)
  case Nil
  then show ?case by simp
next
  case (Cons c cs)
  show ?case
  proof (cases "length data < byte + length c")
    case True
    then show ?thesis by (simp add: Uint8Array_set_def)
  next
    case False
    let ?d = "take byte data @ c @ drop (byte + length c) data"
    from False have s: "Uint8Array_set data c byte = Inr ?d" by (simp add: Uint8Array_set_def)
    from False have l: "length ?d = length data" by simp
    from False have t: "take (byte + length c) ?d = take byte data @ c" by simp
    from False have d: "\<And>k. drop (byte + length c + k) ?d = drop (byte + length c + k) data"
      by (simp add: add.commute add.left_commute)
    from False l have "byte + length c \<le> length ?d" by linarith
    note Cons.IH [OF this]
    then show ?thesis
      using False by (simp add: s l t d add.assoc [symmetric]
          del: append_assoc take_append drop_append)
  qed
qed

lemma meta_requests_push_next [simp]: "meta_requests (push_next M s st) = meta_requests st"
  by (simp add: push_next_def Let_def downloadData_def)

lemma meta_requests_yield_shift [simp]: "meta_requests (yield_shift a sched st) = meta_requests st"
  by (simp add: yield_shift_def split: list.splits)

lemma meta_requests_fill_window [simp]:
  "meta_requests (fill_window M s c i st) = meta_requests st"
proof (induction M s c i st rule: fill_window.induct)
  case (1 M s c i st)
  then show ?case by (cases "i < c") (simp_all add: fill_window.simps [of M s c i st])
qed

lemma meta_requests_parallel_loop [simp]:
  "meta_requests (parallel_loop a sched M s pc st) = meta_requests st"
proof (induction a sched M s pc st rule: parallel_loop.induct)
  case (1 a sched M s pc st)
  then show ?case
    by (cases "thrown st = None \<and> currChunk st < pc")
       (auto simp: parallel_loop.simps [of a sched M s pc st])
qed

lemma meta_requests_drain_loop [simp]:
  "meta_requests (drain_loop a sched st) = meta_requests st"
proof (induction a sched st rule: drain_loop.induct)
  case (1 a sched st)
  then show ?case
    by (cases "thrown st = None \<and> processing st \<noteq> []")
       (auto simp: drain_loop.simps [of a sched st])
qed

lemma meta_requests_run_plan [simp]:
  "meta_requests (run_plan a sched M s sz n opt st) = meta_requests st"
  by (simp add: run_plan_def parallel_phase_def tail_phase_def Let_def yield_next_fields)

text \<open>
  C9. \<open>downloadChunkedData\<close> makes two metadata requests, its own (number 0) and
  the one of the generator (number 1). The output buffer has the size of the first
  answer and receives the yielded buffers one behind the other, the rest staying zero;
  it overflows with a \<open>RangeError\<close> when more bytes arrive than the first answer
  declared. Nothing compares the two answers, and a run that ends normally has received
  exactly the size of the second answer.
\<close>

theorem two_metadata_responses:
  fixes a sched M ident md1 md2
  assumes "tx_offset a 0 ident = Some md1" and "tx_offset a 1 ident = Some md2"
    and "0 \<le> md_size md1" and "md_size md1 < 2 ^ 53"
  defines "g \<equiv> concurrentDownloadChunkedData a sched M 1 ident None"
  defines "received \<equiv> concat (yielded g)"
  shows "snd (downloadChunkedData a sched M ident) = 2 \<and>
         fst (downloadChunkedData a sched M ident) =
           (if md_size md1 < int (length received) then Inl RangeError
            else case thrown g of
                   Some e \<Rightarrow> Inl e
                 | None \<Rightarrow> Inr (received @ replicate (nat (md_size md1) - length received) 0)) \<and>
         (thrown g = None \<longrightarrow> int (length received) = md_size md2)"
proof -
  have m: "meta_requests g = 2"
    unfolding g_def generator_run [OF assms(2)] by (simp add: init_state_def)
  have n: "Uint8Array_new (md_size md1) = Inr (replicate (nat (md_size md1)) 0)"
    using assms(3,4) by (simp add: Uint8Array_new_def)
  have w: "write_chunks (replicate (nat (md_size md1)) 0) 0 (yielded g) =
     (if md_size md1 < int (length received) then Inl RangeError
      else Inr (received @ replicate (nat (md_size md1) - length received) 0))"
    using assms(3) by (simp add: write_chunks_explicit received_def) linarith
  have v: "thrown g = None \<longrightarrow> int (length received) = md_size md2"
    using run_plan_accounting [of a sched M "md_offset md2 - md_size md2 + 1" "md_size md2"
      "chunks M (md_size md2)" 10 "Suc 1"]
    unfolding g_def received_def generator_run [OF assms(2)] by auto
  have "downloadChunkedData a sched M ident =
     (case write_chunks (replicate (nat (md_size md1)) 0) 0 (yielded g) of
        Inl e \<Rightarrow> (Inl e, meta_requests g)
      | Inr data' \<Rightarrow> (case thrown g of Some e \<Rightarrow> (Inl e, meta_requests g)
                        | None \<Rightarrow> (Inr data', meta_requests g)))"
    using assms(1) n
    by (simp add: downloadChunkedData_def getTransactionMetadata_def g_def Let_def
          split: sum.splits option.splits)
  with w m v show ?thesis by (simp split: option.splits)
qed

theorem two_metadata_responses_witness:
  "tx_offset two_sizes_api 0 ''tx'' = Some \<lparr>md_size = 5, md_offset = 104\<rparr> \<and>
   tx_offset two_sizes_api 1 ''tx'' = Some \<lparr>md_size = 3, md_offset = 102\<rparr> \<and>
   downloadChunkedData two_sizes_api in_order 262144 ''tx'' = (Inr [1, 2, 3, 0, 0], 2) \<and>
   thrown (concurrentDownloadChunkedData two_sizes_api in_order 262144 1 ''tx'' None) = None \<and>
   int (length (concat (yielded (concurrentDownloadChunkedData two_sizes_api in_order 262144 1 ''tx'' None))))
     = 3"
proof -
  have h1: "tx_offset two_sizes_api 0 ''tx'' = Some \<lparr>md_size = 5, md_offset = 104\<rparr>"
    and h2: "tx_offset two_sizes_api 1 ''tx'' = Some \<lparr>md_size = 3, md_offset = 102\<rparr>"
    by (simp_all add: two_sizes_api_def)
  have e: "downloadChunkedData two_sizes_api in_order 262144 ''tx'' = (Inr [1, 2, 3, 0, 0], 2)"
    "thrown (concurrentDownloadChunkedData two_sizes_api in_order 262144 1 ''tx'' None) = None"
    by code_simp+
  from two_metadata_responses [OF h1 h2, of in_order 262144] h1 h2 e show ?thesis by simp
qed

section \<open>The chunk buffer\<close>

lemma splice_concat:
  "n \<le> length (concat segs) \<Longrightarrow>
     fst (splice n segs) = take n (concat segs) \<and>
     concat (snd (splice n segs)) = drop n (concat segs)"
proof (induction segs arbitrary: n)
  case Nil
  then show ?case by simp
next
  case (Cons seg segs)
  show ?case
  proof (cases "n < length seg")
    case True
    then show ?thesis by simp
  next
    case False
    with Cons.prems have "n - length seg \<le> length (concat segs)" by simp
    from Cons.IH [OF this] False show ?thesis by (simp add: split_beta)
  qed
qed

lemma wff_new [simp]: "wff ChunkBuffer_new" "buffers ChunkBuffer_new = []"
  by (simp_all add: wff_def ChunkBuffer_new_def)

lemma wff_push [simp]:
  "wff b \<Longrightarrow> wff (push x b)" "concat (buffers (push x b)) = concat (buffers b) @ x"
  by (simp_all add: wff_def push_def)

lemma pop_ok:
  assumes "wff b" "n \<le> cb_length b"
  shows "\<exists>b'. pop n b = Inr (take n (concat (buffers b)), b') \<and> wff b' \<and>
           concat (buffers b') = drop n (concat (buffers b))"
proof -
  from assms have "n \<le> length (concat (buffers b))" by (simp add: wff_def)
  from splice_concat [OF this] assms show ?thesis
    by (simp add: pop_def wff_def split_beta)
qed

lemma flush_out [simp]: "fst (flush b) = concat (buffers b)" "snd (flush b) = ChunkBuffer_new"
  by (simp_all add: flush_def)

lemma run_calls_content:
  "wff b \<Longrightarrow> run_calls cs b = Inr (outs, b') \<Longrightarrow>
     wff b' \<and> concat outs @ concat (buffers b') = concat (buffers b) @ pushed cs"
proof (induction cs b arbitrary: outs b' rule: run_calls.induct)
  case (1 b)
  then show ?case by simp
next
  case (2 x cs b)
  then show ?case by simp
next
  case (3 n cs b)
  show ?case
  proof (cases "n \<le> cb_length b")
    case False
    with "3.prems" show ?thesis by (simp add: pop_def)
  next
    case True
    from pop_ok [OF "3.prems"(1) True] obtain b1 where
      p: "pop n b = Inr (take n (concat (buffers b)), b1)" and w: "wff b1"
      and c: "concat (buffers b1) = drop n (concat (buffers b))" by blast
    from "3.prems"(2) p obtain outs1 where
      r: "run_calls cs b1 = Inr (outs1, b')" and o: "outs = take n (concat (buffers b)) # outs1"
      by (auto split: sum.splits)
    from "3.IH" [OF p refl w r] c
    have w': "wff b'"
      and e: "concat outs1 @ concat (buffers b') = drop n (concat (buffers b)) @ pushed cs"
      by simp_all
    have "concat outs @ concat (buffers b')
        = take n (concat (buffers b)) @ (concat outs1 @ concat (buffers b'))"
      using o by simp
    also have "\<dots> = (take n (concat (buffers b)) @ drop n (concat (buffers b))) @ pushed cs"
      unfolding e by simp
    finally show ?thesis using w' by simp
  qed
next
  case (4 cs b)
  from "4.prems"(2) obtain outs1 where
    r: "run_calls cs ChunkBuffer_new = Inr (outs1, b')" and o: "outs = concat (buffers b) # outs1"
    by (auto simp: flush_def split: sum.splits)
  from "4.IH" [of "concat (buffers b)" ChunkBuffer_new outs1 b'] r o show ?case
    by (simp add: flush_def)
qed

text \<open>
  C8. For every sequence of \<open>push\<close>, \<open>pop\<close> and \<open>flush\<close> calls on a new
  chunk buffer in which every \<open>pop\<close> finds enough bytes, the outputs of the calls
  followed by the output of a final \<open>flush\<close> are, concatenated, the pushed bytes in
  their order, wherever the pops cut; and \<open>flush\<close> on an empty buffer returns no
  bytes.
\<close>

theorem chunk_buffer_round_trip:
  assumes "run_calls cs ChunkBuffer_new = Inr (outs, b)"
  shows "concat outs @ fst (flush b) = pushed cs \<and> fst (flush ChunkBuffer_new) = []"
  using run_calls_content [OF wff_new(1) assms] by simp

theorem chunk_buffer_round_trip_witness:
  "run_calls test_calls ChunkBuffer_new
     = Inr ([take 8 test_data, take 7 (drop 8 test_data), take 12 (drop 15 test_data)],
            \<lparr>buffers = [drop 27 test_data], cb_length = 5\<rparr>) \<and>
   concat [take 8 test_data, take 7 (drop 8 test_data), take 12 (drop 15 test_data)]
     @ fst (flush \<lparr>buffers = [drop 27 test_data], cb_length = 5\<rparr>) = pushed test_calls"
proof -
  have r: "run_calls test_calls ChunkBuffer_new
     = Inr ([take 8 test_data, take 7 (drop 8 test_data), take 12 (drop 15 test_data)],
            \<lparr>buffers = [drop 27 test_data], cb_length = 5\<rparr>)"
    by code_simp
  from chunk_buffer_round_trip [OF r] r show ?thesis by simp
qed

section \<open>The chunker\<close>

lemma slices_length: "0 < n \<Longrightarrow> length (slices n xs) = length xs div n"
proof (induction n xs rule: slices.induct)
  case (1 n xs)
  show ?case
  proof (cases "n \<le> length xs")
    case True
    with 1 have "length (slices n (drop n xs)) = (length xs - n) div n" by simp
    with True "1.prems" show ?thesis
      by (simp add: slices.simps [of n xs] le_div_geq)
  next
    case False
    then show ?thesis by (simp add: slices.simps [of n xs])
  qed
qed

lemma slices_each: "s \<in> set (slices n xs) \<Longrightarrow> length s = n"
proof (induction n xs rule: slices.induct)
  case (1 n xs)
  show ?case
  proof (cases "0 < n \<and> n \<le> length xs")
    case True
    with 1 show ?thesis by (auto simp: slices.simps [of n xs])
  next
    case False
    with "1.prems" show ?thesis by (auto simp: slices.simps [of n xs])
  qed
qed

lemma slices_concat: "0 < n \<Longrightarrow> concat (slices n xs) = take (length xs div n * n) xs"
proof (induction n xs rule: slices.induct)
  case (1 n xs)
  show ?case
  proof (cases "n \<le> length xs")
    case True
    with 1 have ih: "concat (slices n (drop n xs)) = take ((length xs - n) div n * n) (drop n xs)"
      by simp
    from True "1.prems" have d: "length xs div n * n = n + (length xs - n) div n * n"
      by (simp add: le_div_geq)
    have "take (n + (length xs - n) div n * n) xs
        = take n xs @ take ((length xs - n) div n * n) (drop n xs)"
      by (simp add: take_add)
    with True "1.prems" ih d show ?thesis by (simp add: slices.simps [of n xs])
  next
    case False
    then show ?thesis by (simp add: slices.simps [of n xs])
  qed
qed

lemma slices_append:
  "0 < n \<Longrightarrow>
     slices n (xs @ ys) = slices n xs @ slices n (drop (length xs div n * n) xs @ ys)"
proof (induction n xs rule: slices.induct)
  case (1 n xs)
  show ?case
  proof (cases "n \<le> length xs")
    case True
    with 1 have ih: "slices n (drop n xs @ ys)
        = slices n (drop n xs) @ slices n (drop ((length xs - n) div n * n) (drop n xs) @ ys)"
      by simp
    from True "1.prems" have d: "length xs div n * n = (length xs - n) div n * n + n"
      by (simp add: le_div_geq)
    from True "1.prems" show ?thesis
      by (simp add: slices.simps [of n xs] slices.simps [of n "xs @ ys"] ih d)
  next
    case False
    then show ?thesis by (simp add: slices.simps [of n xs])
  qed
qed

lemma pop_chunks_slices:
  assumes "0 < n"
  shows "wff b \<Longrightarrow> \<exists>b'. pop_chunks n b acc
            = Some (Inr (acc @ slices n (concat (buffers b)), b')) \<and> wff b' \<and>
          concat (buffers b')
            = drop (length (concat (buffers b)) div n * n) (concat (buffers b))"
proof (induction "cb_length b" arbitrary: b acc rule: less_induct)
  case less
  let ?xs = "concat (buffers b)"
  from less.prems have l: "cb_length b = length ?xs" by (simp add: wff_def)
  show ?case
  proof (cases "n \<le> cb_length b")
    case False
    with l less.prems show ?thesis
      by (simp add: pop_chunks.simps [of n b acc] slices.simps [of n ?xs])
  next
    case True
    from pop_ok [OF less.prems True] obtain b1 where
      p: "pop n b = Inr (take n ?xs, b1)" and w: "wff b1"
      and c: "concat (buffers b1) = drop n ?xs" by blast
    from w c l True assms have "cb_length b1 < cb_length b" by (simp add: wff_def)
    from less.hyps [OF this w, of "acc @ [take n ?xs]"] obtain b' where
      r: "pop_chunks n b1 (acc @ [take n ?xs])
            = Some (Inr ((acc @ [take n ?xs]) @ slices n (concat (buffers b1)), b'))"
      and w': "wff b'"
      and c': "concat (buffers b')
            = drop (length (concat (buffers b1)) div n * n) (concat (buffers b1))"
      by blast
    from True l assms have d: "length ?xs div n * n = (length ?xs - n) div n * n + n"
      by (simp add: le_div_geq)
    have "pop_chunks n b acc = Some (Inr (acc @ slices n ?xs, b'))"
      using True l assms p r c by (simp add: pop_chunks.simps [of n b acc] slices.simps [of n ?xs])
    moreover have "concat (buffers b') = drop (length ?xs div n * n) ?xs"
      using c' c d by simp
    ultimately show ?thesis using w' by blast
  qed
qed

lemma rest_length: "length (drop (length xs div n * n) xs) = length xs mod n"
  by (simp add: minus_div_mult_eq_mod)

lemma rest_append:
  assumes "0 < n"
  shows "drop (length (drop (length xs div n * n) xs @ ys) div n * n)
           (drop (length xs div n * n) xs @ ys)
       = drop (length (xs @ ys) div n * n) (xs @ ys)"
proof -
  let ?k = "length xs div n * n"
  have k: "?k \<le> length xs" by simp
  have "length xs + length ys = (length xs - ?k + length ys) + length xs div n * n"
    using k by linarith
  then have "(length xs + length ys) div n = (length xs - ?k + length ys) div n + length xs div n"
    using assms by (metis div_mult_self1 add.commute mult.commute less_numeral_extra(3))
  then have j: "length (xs @ ys) div n * n = length (drop ?k xs @ ys) div n * n + ?k"
    by (simp add: add_mult_distrib)
  have "drop ?k xs @ ys = drop ?k (xs @ ys)" using k by simp
  then show ?thesis unfolding j by (simp only: drop_drop)
qed

lemma chunker_loop_slices:
  assumes "0 < n"
  shows "wff b \<Longrightarrow> length (concat (buffers b)) < n \<Longrightarrow>
     chunker_loop n fl b acc inputs =
       Some (Inr (acc @ slices n (concat (buffers b) @ concat inputs) @
         (if fl \<and> 0 < length (concat (buffers b) @ concat inputs) mod n
          then [drop (length (concat (buffers b) @ concat inputs) div n * n)
                  (concat (buffers b) @ concat inputs)]
          else [])))"
proof (induction inputs arbitrary: b acc)
  case Nil
  let ?r = "concat (buffers b)"
  from Nil have "length ?r mod n = cb_length b" "length ?r div n = 0" "slices n ?r = []"
    by (simp_all add: wff_def slices.simps [of n ?r])
  then show ?case by simp
next
  case (Cons x xs)
  let ?r = "concat (buffers b)"
  from pop_chunks_slices [OF assms wff_push(1) [OF Cons.prems(1)], of x acc]
  obtain b' where
    p: "pop_chunks n (push x b) acc = Some (Inr (acc @ slices n (?r @ x), b'))"
    and w: "wff b'"
    and c: "concat (buffers b') = drop (length (?r @ x) div n * n) (?r @ x)"
    by (auto simp: wff_push(2))
  from c assms have l: "length (concat (buffers b')) < n"
    unfolding c rest_length by simp
  note ih = Cons.IH [OF w l, of "acc @ slices n (?r @ x)"]
  have s: "slices n ((?r @ x) @ concat xs)
      = slices n (?r @ x) @ slices n (concat (buffers b') @ concat xs)"
    unfolding c by (rule slices_append [OF assms])
  have d: "drop (length (concat (buffers b') @ concat xs) div n * n) (concat (buffers b') @ concat xs)
      = drop (length ((?r @ x) @ concat xs) div n * n) ((?r @ x) @ concat xs)"
    unfolding c by (rule rest_append [OF assms])
  have m: "length (concat (buffers b') @ concat xs) mod n = length ((?r @ x) @ concat xs) mod n"
    using arg_cong [OF d, of length] unfolding rest_length .
  have "chunker_loop n fl b acc (x # xs) = chunker_loop n fl b' (acc @ slices n (?r @ x)) xs"
    using p by simp
  also note ih
  finally show ?case
    unfolding d m using s by simp
qed

text \<open>
  C7. For a positive chunk size and an input of \<open>L\<close> bytes in total, however it is
  split into buffers, the chunker without \<open>flush\<close> returns, and yields exactly
  \<open>L div chunkSize\<close> buffers of \<open>chunkSize\<close> bytes each, which are the leading
  bytes of the input; the remainder is dropped. With \<open>flush\<close> it yields the same
  buffers followed by one buffer with the remaining \<open>L mod chunkSize\<close> bytes exactly
  when that number is positive.
\<close>

theorem chunker_fixed_size:
  assumes "0 < chunkSize"
  shows "\<exists>outs. chunker chunkSize False inputs = Some (Inr outs) \<and>
           length outs = length (concat inputs) div chunkSize \<and>
           (\<forall>out \<in> set outs. length out = chunkSize) \<and>
           concat outs = take (length (concat inputs) div chunkSize * chunkSize) (concat inputs) \<and>
           chunker chunkSize True inputs =
             Some (Inr (outs @
               (if 0 < length (concat inputs) mod chunkSize
                then [drop (length (concat inputs) div chunkSize * chunkSize) (concat inputs)]
                else [])))"
proof -
  have "chunker chunkSize fl inputs =
       Some (Inr (slices chunkSize (concat inputs) @
         (if fl \<and> 0 < length (concat inputs) mod chunkSize
          then [drop (length (concat inputs) div chunkSize * chunkSize) (concat inputs)]
          else [])))" for fl
    using chunker_loop_slices [OF assms, of ChunkBuffer_new fl "[]" inputs] assms
    by (simp add: chunker_def)
  then show ?thesis
    using slices_length [OF assms] slices_each slices_concat [OF assms] by auto
qed

theorem chunker_fixed_size_witness:
  "(0::nat) < 256 \<and>
   (\<exists>outs. chunker 256 False [replicate 1026 0] = Some (Inr outs) \<and> length outs = 4 \<and>
      (\<forall>out \<in> set outs. length out = 256) \<and>
      chunker 256 True [replicate 1026 0] = Some (Inr (outs @ [replicate 2 0])))"
proof -
  have z: "(0::nat) < 256" by simp
  from chunker_fixed_size [OF z, of "[replicate 1026 0]"] z show ?thesis by auto
qed

end
